theory Spec2Isabelle
  imports Main "HOL-Library.Word" "HOL-Library.Multiset"
begin

unbundle bit_operations_syntax

section \<open>Machine state of the badge firmware (cooperative/main.c)\<close>

text \<open>
  The firmware is a single C file for an 8-bit Padauk microcontroller. Its integers are
  modelled with their widths: \<open>uint8_t\<close> and \<open>int8_t\<close> as 8-bit words (the signed
  reading is \<open>sint\<close>), \<open>int16_t\<close> as a 16-bit word, \<open>uint32_t\<close> as a 32-bit word
  whose arithmetic wraps.
\<close>

type_synonym u8 = "8 word"
type_synonym s8 = "8 word"
type_synonym s16 = "16 word"
type_synonym u32 = "32 word"

text \<open>
  The special function registers the animation code writes: the data, control (direction)
  and pull-up registers of ports A and B, and the registers of timer 2, which generates
  the 38 kHz carrier of the infrared pulse.
\<close>

record registers =
  PA :: u8
  PAC :: u8
  PAPH :: u8
  PB :: u8
  PBC :: u8
  PBPH :: u8
  TM2C :: u8
  TM2CT :: u8
  TM2B :: u8
  TM2S :: u8

text \<open>
  The globals of the program, the registers, and the two volatile inputs. The counter
  \<open>elapsedmillis\<close> is incremented by the timer interrupt behind the back of the main
  program, and bit 4 of port A is the output of the infrared receiver; what the main
  program sees of them is the sequence of values its successive reads return. So
  \<open>elapsedmillis c k\<close> is the value returned by the \<open>k\<close>-th call of \<open>millis()\<close>,
  \<open>PA_in c k\<close> the value of port A at the \<open>k\<close>-th sampling of the sync pin, and
  \<open>millis_reads\<close> and \<open>PA_reads\<close> count the reads made so far. The writes of \<open>setled\<close>
  and \<open>syncpulse\<close> to the data register of port A go to the field \<open>PA\<close> of the
  registers, and the read-modify-write statements of \<open>setled\<close> read that field: they
  change bits 0 and 7 only, never bit 4, the sync input.
\<close>

record ctx =
  state :: u8
  previoustime :: u32
  previouspinstate :: u8
  regs :: registers
  elapsedmillis :: "nat \<Rightarrow> u32"
  millis_reads :: nat
  PA_in :: "nat \<Rightarrow> u8"
  PA_reads :: nat

subsection \<open>millis and the sampling of the sync pin\<close>

definition millis :: "ctx \<Rightarrow> u32 \<times> ctx" where
  "millis c = (elapsedmillis c (millis_reads c), c\<lparr>millis_reads := Suc (millis_reads c)\<rparr>)"

text \<open>The expression \<open>(PA >> 4) & 1\<close>, on the value read from port A.\<close>

definition read_pin :: "ctx \<Rightarrow> u8 \<times> ctx" where
  "read_pin c = (drop_bit 4 (PA_in c (PA_reads c)) AND 1, c\<lparr>PA_reads := Suc (PA_reads c)\<rparr>)"

subsection \<open>setled\<close>

text \<open>The compound assignments \<open>R &= m\<close> and \<open>R |= m\<close> on the four port registers.\<close>

definition PA_and :: "u8 \<Rightarrow> registers \<Rightarrow> registers" where
  "PA_and m r = r\<lparr>PA := PA r AND m\<rparr>"

definition PA_or :: "u8 \<Rightarrow> registers \<Rightarrow> registers" where
  "PA_or m r = r\<lparr>PA := PA r OR m\<rparr>"

definition PAC_and :: "u8 \<Rightarrow> registers \<Rightarrow> registers" where
  "PAC_and m r = r\<lparr>PAC := PAC r AND m\<rparr>"

definition PAC_or :: "u8 \<Rightarrow> registers \<Rightarrow> registers" where
  "PAC_or m r = r\<lparr>PAC := PAC r OR m\<rparr>"

definition PB_and :: "u8 \<Rightarrow> registers \<Rightarrow> registers" where
  "PB_and m r = r\<lparr>PB := PB r AND m\<rparr>"

definition PB_or :: "u8 \<Rightarrow> registers \<Rightarrow> registers" where
  "PB_or m r = r\<lparr>PB := PB r OR m\<rparr>"

definition PBC_and :: "u8 \<Rightarrow> registers \<Rightarrow> registers" where
  "PBC_and m r = r\<lparr>PBC := PBC r AND m\<rparr>"

definition PBC_or :: "u8 \<Rightarrow> registers \<Rightarrow> registers" where
  "PBC_or m r = r\<lparr>PBC := PBC r OR m\<rparr>"

text \<open>A sequence of statements, executed from left to right.\<close>

definition stmts :: "(registers \<Rightarrow> registers) list \<Rightarrow> registers \<Rightarrow> registers" where
  "stmts fs r = fold (\<lambda>f. f) fs r"

text \<open>The \<open>switch (left)\<close> of \<open>setled\<close>, case by case as in the source.\<close>

definition switch_left :: "s8 \<Rightarrow> registers \<Rightarrow> registers" where
  "switch_left left r =
    (if left = 0 then stmts [PA_and 0x7f, PAC_or 0x80, PB_or 0x10, PBC_or 0x10] r
     else if left = 1 then stmts [PB_and 0x7f, PBC_or 0x80, PB_or 0x10, PBC_or 0x10] r
     else if left = 2 then stmts [PB_and 0xbf, PBC_or 0x40, PB_or 0x10, PBC_or 0x10] r
     else if left = 3 then stmts [PB_and 0xdf, PBC_or 0x20, PB_or 0x10, PBC_or 0x10] r
     else if left = 4 then stmts [PA_and 0x7f, PAC_or 0x80, PB_or 0x20, PBC_or 0x20] r
     else if left = 5 then stmts [PB_and 0x7f, PBC_or 0x80, PB_or 0x20, PBC_or 0x20] r
     else if left = 6 then stmts [PB_and 0xbf, PBC_or 0x40, PB_or 0x20, PBC_or 0x20] r
     else if left = 7 then stmts [PB_and 0xef, PBC_or 0x10, PB_or 0x20, PBC_or 0x20] r
     else if left = 8 then stmts [PA_and 0x7f, PAC_or 0x80, PB_or 0x40, PBC_or 0x40] r
     else if left = 9 then stmts [PB_and 0x7f, PBC_or 0x80, PB_or 0x40, PBC_or 0x40] r
     else if left = 10 then stmts [PB_and 0xdf, PBC_or 0x20, PB_or 0x40, PBC_or 0x40] r
     else if left = 11 then stmts [PB_and 0xef, PBC_or 0x10, PB_or 0x40, PBC_or 0x40] r
     else if left = 12 then stmts [PA_and 0x7f, PAC_or 0x80, PB_or 0x80, PBC_or 0x80] r
     else if left = 13 then stmts [PB_and 0xbf, PBC_or 0x40, PB_or 0x80, PBC_or 0x80] r
     else if left = 14 then stmts [PB_and 0xdf, PBC_or 0x20, PB_or 0x80, PBC_or 0x80] r
     else if left = 15 then stmts [PB_and 0xef, PBC_or 0x10, PB_or 0x80, PBC_or 0x80] r
     else if left = 16 then stmts [PB_and 0x7f, PBC_or 0x80, PA_or 0x80, PAC_or 0x80] r
     else if left = 17 then stmts [PB_and 0xbf, PBC_or 0x40, PA_or 0x80, PAC_or 0x80] r
     else if left = 18 then stmts [PB_and 0xdf, PBC_or 0x20, PA_or 0x80, PAC_or 0x80] r
     else if left = 19 then stmts [PB_and 0xef, PBC_or 0x10, PA_or 0x80, PAC_or 0x80] r
     else r)"

text \<open>The \<open>switch (right)\<close> of \<open>setled\<close>.\<close>

definition switch_right :: "s8 \<Rightarrow> registers \<Rightarrow> registers" where
  "switch_right right r =
    (if right = 0 then stmts [PA_and 0xfe, PAC_or 0x01, PB_or 0x08, PBC_or 0x08] r
     else if right = 1 then stmts [PB_and 0xfe, PBC_or 0x01, PB_or 0x08, PBC_or 0x08] r
     else if right = 2 then stmts [PB_and 0xfd, PBC_or 0x02, PB_or 0x08, PBC_or 0x08] r
     else if right = 3 then stmts [PB_and 0xfb, PBC_or 0x04, PB_or 0x08, PBC_or 0x08] r
     else if right = 4 then stmts [PA_and 0xfe, PAC_or 0x01, PB_or 0x04, PBC_or 0x04] r
     else if right = 5 then stmts [PB_and 0xfe, PBC_or 0x01, PB_or 0x04, PBC_or 0x04] r
     else if right = 6 then stmts [PB_and 0xfd, PBC_or 0x02, PB_or 0x04, PBC_or 0x04] r
     else if right = 7 then stmts [PB_and 0xf7, PBC_or 0x08, PB_or 0x04, PBC_or 0x04] r
     else if right = 8 then stmts [PA_and 0xfe, PAC_or 0x01, PB_or 0x02, PBC_or 0x02] r
     else if right = 9 then stmts [PB_and 0xfe, PBC_or 0x01, PB_or 0x02, PBC_or 0x02] r
     else if right = 10 then stmts [PB_and 0xfb, PBC_or 0x04, PB_or 0x02, PBC_or 0x02] r
     else if right = 11 then stmts [PB_and 0xf7, PBC_or 0x08, PB_or 0x02, PBC_or 0x02] r
     else if right = 12 then stmts [PA_and 0xfe, PAC_or 0x01, PB_or 0x01, PBC_or 0x01] r
     else if right = 13 then stmts [PB_and 0xfd, PBC_or 0x02, PB_or 0x01, PBC_or 0x01] r
     else if right = 14 then stmts [PB_and 0xfb, PBC_or 0x04, PB_or 0x01, PBC_or 0x01] r
     else if right = 15 then stmts [PB_and 0xf7, PBC_or 0x08, PB_or 0x01, PBC_or 0x01] r
     else if right = 16 then stmts [PB_and 0xfe, PBC_or 0x01, PA_or 0x01, PAC_or 0x01] r
     else if right = 17 then stmts [PB_and 0xfd, PBC_or 0x02, PA_or 0x01, PAC_or 0x01] r
     else if right = 18 then stmts [PB_and 0xfb, PBC_or 0x04, PA_or 0x01, PAC_or 0x01] r
     else if right = 19 then stmts [PB_and 0xf7, PBC_or 0x08, PA_or 0x01, PAC_or 0x01] r
     else r)"

text \<open>
  The two halves of \<open>setled\<close>. The comparison \<open>left < 21\<close> is between signed values:
  a negative argument takes the branch and falls to the default case.
\<close>

definition setled_left :: "s8 \<Rightarrow> registers \<Rightarrow> registers" where
  "setled_left left r =
    (if sint left < 21 then switch_left left (stmts [PAC_and 0x7f, PBC_and 0x0f] r) else r)"

definition setled_right :: "s8 \<Rightarrow> registers \<Rightarrow> registers" where
  "setled_right right r =
    (if sint right < 21 then switch_right right (stmts [PAC_and 0xfe, PBC_and 0xf0] r) else r)"

definition setled :: "s8 \<Rightarrow> s8 \<Rightarrow> ctx \<Rightarrow> ctx" where
  "setled left right c = c\<lparr>regs := setled_right right (setled_left left (regs c))\<rparr>"

subsection \<open>waituntil\<close>

text \<open>
  The polling loop of \<open>waituntil\<close> may run forever (when the clock never reaches the
  budget and no edge arrives), so it is a partial function: \<open>None\<close> is a loop that does
  not end. The locals \<open>currenttime\<close> and \<open>currentpinstate\<close> are parameters. In the
  comparison \<open>currenttime - previoustime < time\<close> the left side is \<open>uint32_t\<close>, so the
  \<open>int16_t\<close> budget is converted to \<open>uint32_t\<close> (sign extension, \<open>scast\<close>) and the
  comparison is unsigned; the caller passes the converted budget.
\<close>

partial_function (option) waituntil_loop :: "u32 \<Rightarrow> u32 \<Rightarrow> u8 \<Rightarrow> ctx \<Rightarrow> (u32 \<times> u8 \<times> ctx) option" where
  "waituntil_loop time currenttime currentpinstate c =
    (if currenttime - previoustime c < time \<and> (currentpinstate = 0 \<or> previouspinstate c = 1)
     then
       (let (currenttime', c1) = millis c;
            c2 = c1\<lparr>previouspinstate := currentpinstate\<rparr>;
            (currentpinstate', c3) = read_pin c2
        in waituntil_loop time currenttime' currentpinstate' c3)
     else Some (currenttime, currentpinstate, c))"

declare waituntil_loop.simps [code]

definition waituntil :: "s16 \<Rightarrow> ctx \<Rightarrow> (u8 \<times> ctx) option" where
  "waituntil time c =
    (let (currenttime, c1) = millis c;
         (currentpinstate, c2) = read_pin c1
     in case waituntil_loop (scast time) currenttime currentpinstate c2 of
          None \<Rightarrow> None
        | Some (currenttime, currentpinstate, c3) \<Rightarrow>
            if currentpinstate = 1 \<and> previouspinstate c3 = 0
            then Some (1, c3\<lparr>state := 0, previoustime := currenttime, previouspinstate := 1\<rparr>)
            else Some (0, c3\<lparr>previoustime := previoustime c3 + scast time\<rparr>))"

subsection \<open>syncpulse\<close>

partial_function (option) syncpulse_loop :: "u32 \<Rightarrow> u32 \<Rightarrow> ctx \<Rightarrow> ctx option" where
  "syncpulse_loop time currenttime c =
    (if currenttime - previoustime c < time
     then (let (currenttime', c1) = millis c in syncpulse_loop time currenttime' c1)
     else Some c)"

declare syncpulse_loop.simps [code]

text \<open>
  Timer 2 is stopped, loaded and started (\<open>TM2C = 0b00101000\<close>), the Timing Baseline is
  set to the clock, the loop waits, and the timer and port A are switched off.
\<close>

definition syncpulse :: "s16 \<Rightarrow> ctx \<Rightarrow> ctx option" where
  "syncpulse time c =
    (let c1 = c\<lparr>regs := (regs c)\<lparr>TM2C := 0, TM2CT := 0, TM2B := 211, TM2S := 0, TM2C := 0x28\<rparr>\<rparr>;
         (currenttime, c2) = millis c1;
         c3 = c2\<lparr>previoustime := currenttime\<rparr>
     in case syncpulse_loop (scast time) currenttime c3 of
          None \<Rightarrow> None
        | Some c4 \<Rightarrow> Some (c4\<lparr>regs := (regs c4)\<lparr>TM2C := 0, PA := 0\<rparr>\<rparr>))"

subsection \<open>setup\<close>

text \<open>
  The port registers are initialised, the Timing Baseline is read from the clock, and the
  pin state and the Sequence State are reset. The programming of timer T16 and of the
  interrupt controller by \<open>setup_millis\<close> is what makes \<open>elapsedmillis\<close> count; it is
  represented by the sequence \<open>elapsedmillis\<close> itself.
\<close>

definition setup_badge :: "ctx \<Rightarrow> ctx" where
  "setup_badge c =
    (let c1 = c\<lparr>regs := (regs c)\<lparr>PAPH := 0x76, PBPH := 0x00, PA := 0x00, PB := 0x00,
                                 PAC := 0x08, PBC := 0x00\<rparr>\<rparr>;
         (t, c2) = millis c1
     in c2\<lparr>previoustime := t, previouspinstate := 1, state := 0\<rparr>)"

subsection \<open>The pattern functions\<close>

text \<open>
  Every inner loop of a pattern function has the same body: \<open>setled(l, r)\<close> and then
  \<open>if (waituntil(25)) return\<close>. \<open>play\<close> runs it over the list of the argument pairs of
  the loop, in order. Its result says whether the \<open>return\<close> was taken.
\<close>

fun play :: "(s8 \<times> s8) list \<Rightarrow> ctx \<Rightarrow> (bool \<times> ctx) option" where
  "play [] c = Some (False, c)"
| "play ((l, r) # steps) c =
    (case waituntil 25 (setled l r c) of
       None \<Rightarrow> None
     | Some (w, c') \<Rightarrow> if w \<noteq> 0 then Some (True, c') else play steps c')"

text \<open>What follows a loop runs only when the loop did not return.\<close>

definition and_then :: "(bool \<times> ctx) option \<Rightarrow> (ctx \<Rightarrow> (bool \<times> ctx) option) \<Rightarrow> (bool \<times> ctx) option" where
  "and_then x f = (case x of None \<Rightarrow> None | Some (returned, c) \<Rightarrow> if returned then Some (True, c) else f c)"

text \<open>The outer loop \<open>for (uint8_t r=0; r<n; r++)\<close> runs its body \<open>n\<close> times.\<close>

fun repeats :: "nat \<Rightarrow> (ctx \<Rightarrow> (bool \<times> ctx) option) \<Rightarrow> ctx \<Rightarrow> (bool \<times> ctx) option" where
  "repeats 0 body c = Some (False, c)"
| "repeats (Suc n) body c = and_then (body c) (repeats n body)"

text \<open>The index range \<open>for (int8_t i=0; i<20; i++)\<close>.\<close>

definition i20 :: "nat list" where
  "i20 = [0..<20]"

definition singleledccw :: "u8 \<Rightarrow> ctx \<Rightarrow> ctx option" where
  "singleledccw n c = map_option snd (repeats (unat n)
     (\<lambda>c. and_then (play (map (\<lambda>i. (of_nat i, 20)) i20) c)
                    (play (map (\<lambda>i. (20, of_nat (19 - i))) i20))) c)"

definition singleledcw :: "u8 \<Rightarrow> ctx \<Rightarrow> ctx option" where
  "singleledcw n c = map_option snd (repeats (unat n)
     (\<lambda>c. and_then (play (map (\<lambda>i. (20, of_nat i)) i20) c)
                    (play (map (\<lambda>i. (of_nat (19 - i), 20)) i20))) c)"

definition twoledsccw :: "u8 \<Rightarrow> ctx \<Rightarrow> ctx option" where
  "twoledsccw n c = map_option snd (repeats (unat n)
     (play (map (\<lambda>i. (of_nat i, of_nat (19 - i))) i20)) c)"

definition twoledscw :: "u8 \<Rightarrow> ctx \<Rightarrow> ctx option" where
  "twoledscw n c = map_option snd (repeats (unat n)
     (play (map (\<lambda>i. (of_nat (19 - i), of_nat i)) i20)) c)"

definition twoledsflapdown :: "u8 \<Rightarrow> ctx \<Rightarrow> ctx option" where
  "twoledsflapdown n c = map_option snd (repeats (unat n)
     (play (map (\<lambda>i. (of_nat i, of_nat i)) i20)) c)"

definition twoledsflapup :: "u8 \<Rightarrow> ctx \<Rightarrow> ctx option" where
  "twoledsflapup n c = map_option snd (repeats (unat n)
     (play (map (\<lambda>i. (of_nat (19 - i), of_nat (19 - i))) i20)) c)"

definition twoledsflap :: "u8 \<Rightarrow> ctx \<Rightarrow> ctx option" where
  "twoledsflap n c = map_option snd (repeats (unat n)
     (\<lambda>c. and_then (play (map (\<lambda>i. (of_nat i, of_nat i)) i20) c)
                    (play (map (\<lambda>i. (of_nat (19 - i), of_nat (19 - i))) i20))) c)"

definition randomsequence :: "u8 list" where
  "randomsequence = [9,19,3,2,16,17,6,18,1,8,0,14,15,5,7,10,11,12,4,10,
                     10,1,15,8,17,9,6,16,7,13,11,0,2,3,4,18,12,14,5,19]"

text \<open>The argument lists of the four inner loops of \<open>twoledsrandom\<close>.\<close>

definition random_pass1 :: "(s8 \<times> s8) list" where
  "random_pass1 = map (\<lambda>i. (randomsequence ! i, randomsequence ! (i + 20))) i20"

definition random_pass2 :: "(s8 \<times> s8) list" where
  "random_pass2 = map (\<lambda>i. (randomsequence ! (i + 20), randomsequence ! i)) i20"

definition random_pass3 :: "(s8 \<times> s8) list" where
  "random_pass3 = map (\<lambda>i. (randomsequence ! (19 - i), randomsequence ! (39 - i))) i20"

definition random_pass4 :: "(s8 \<times> s8) list" where
  "random_pass4 = map (\<lambda>i. (randomsequence ! (39 - i), randomsequence ! (19 - i))) i20"

definition twoledsrandom :: "u8 \<Rightarrow> ctx \<Rightarrow> ctx option" where
  "twoledsrandom n c = map_option snd (repeats (unat n)
     (\<lambda>c. and_then (and_then (and_then (play random_pass1 c) (play random_pass2))
                              (play random_pass3))
                    (play random_pass4)) c)"

subsection \<open>loop and main\<close>

definition loop :: "ctx \<Rightarrow> ctx option" where
  "loop c =
    (let c1 = c\<lparr>state := state c + 1\<rparr>
     in if state c1 = 1 then singleledccw 4 c1
        else if state c1 = 2 then singleledcw 4 c1
        else if state c1 = 3 then twoledsccw 8 c1
        else if state c1 = 4 then twoledscw 8 c1
        else if state c1 = 5 then twoledsflapdown 8 c1
        else if state c1 = 6 then twoledsflapup 8 c1
        else if state c1 = 7 then twoledsflap 4 c1
        else if state c1 = 8 then twoledsrandom 4 c1
        else (case syncpulse 25 c1 of None \<Rightarrow> None | Some c2 \<Rightarrow> Some (c2\<lparr>state := 0\<rparr>)))"

text \<open>
  \<open>ticks n\<close> is \<open>n\<close> consecutive calls of \<open>loop\<close>; \<open>main\<close> calls the function
  \<open>setup\<close> of the source (here \<open>setup_badge\<close>, the name being reserved) and then loops.
\<close>

fun ticks :: "nat \<Rightarrow> ctx \<Rightarrow> ctx option" where
  "ticks 0 c = Some c"
| "ticks (Suc n) c = (case loop c of None \<Rightarrow> None | Some c' \<Rightarrow> ticks n c')"

definition main_ticks :: "nat \<Rightarrow> ctx \<Rightarrow> ctx option" where
  "main_ticks n c = ticks n (setup_badge c)"

section \<open>Notions used to state the properties\<close>

text \<open>
  The polls of one call of \<open>waituntil\<close> are numbered from 0, the poll at call entry.
  \<open>poll_time c j\<close> and \<open>poll_pin c j\<close> are the clock value and the level of the sync
  pin that poll \<open>j\<close> of a call entered in context \<open>c\<close> samples, \<open>poll_prev c j\<close> is
  the value of \<open>previouspinstate\<close> at that poll. \<open>edge_at\<close> is the edge test of the source
  (previous sample LOW, current sample HIGH), \<open>elapsed_at\<close> says that the budget has
  elapsed at the poll, \<open>polling_at\<close> is the loop condition: the loop goes on after that
  poll. \<open>after_polls c j\<close> is the context once poll \<open>j\<close> has been sampled.
\<close>

definition poll_time :: "ctx \<Rightarrow> nat \<Rightarrow> u32" where
  "poll_time c j = elapsedmillis c (millis_reads c + j)"

definition poll_pin :: "ctx \<Rightarrow> nat \<Rightarrow> u8" where
  "poll_pin c j = drop_bit 4 (PA_in c (PA_reads c + j)) AND 1"

definition poll_prev :: "ctx \<Rightarrow> nat \<Rightarrow> u8" where
  "poll_prev c j = (if j = 0 then previouspinstate c else poll_pin c (j - 1))"

definition edge_at :: "ctx \<Rightarrow> nat \<Rightarrow> bool" where
  "edge_at c j = (poll_pin c j = 1 \<and> poll_prev c j = 0)"

definition elapsed_at :: "s16 \<Rightarrow> ctx \<Rightarrow> nat \<Rightarrow> bool" where
  "elapsed_at time c j = (\<not> poll_time c j - previoustime c < scast time)"

definition polling_at :: "s16 \<Rightarrow> ctx \<Rightarrow> nat \<Rightarrow> bool" where
  "polling_at time c j = (\<not> elapsed_at time c j \<and> (poll_pin c j = 0 \<or> poll_prev c j = 1))"

definition after_polls :: "ctx \<Rightarrow> nat \<Rightarrow> ctx" where
  "after_polls c j = c\<lparr>previouspinstate := poll_prev c j,
     millis_reads := millis_reads c + Suc j, PA_reads := PA_reads c + Suc j\<rparr>"

text \<open>What \<open>waituntil\<close> returns when its loop leaves at poll \<open>k\<close>.\<close>

definition wait_result :: "s16 \<Rightarrow> ctx \<Rightarrow> nat \<Rightarrow> u8 \<times> ctx" where
  "wait_result time c k =
    (if edge_at c k
     then (1, (after_polls c k)\<lparr>state := 0, previoustime := poll_time c k, previouspinstate := 1\<rparr>)
     else (0, (after_polls c k)\<lparr>previoustime := previoustime c + scast time\<rparr>))"

text \<open>
  The same for \<open>syncpulse\<close>: its clock reads are numbered from 0, the read that sets the
  Timing Baseline. \<open>pulse_on_at\<close> is the loop condition at read \<open>j\<close>, \<open>pulse_ctx\<close> the
  context in the loop once read \<open>j\<close> is made, \<open>pulse_result\<close> what \<open>syncpulse\<close> returns
  when its loop leaves at read \<open>k\<close>.
\<close>

definition pulse_on_at :: "s16 \<Rightarrow> ctx \<Rightarrow> nat \<Rightarrow> bool" where
  "pulse_on_at time c j = (poll_time c j - poll_time c 0 < scast time)"

definition pulse_ctx :: "ctx \<Rightarrow> nat \<Rightarrow> ctx" where
  "pulse_ctx c j = c\<lparr>regs := (regs c)\<lparr>TM2CT := 0, TM2B := 211, TM2S := 0, TM2C := 0x28\<rparr>,
     millis_reads := millis_reads c + Suc j, previoustime := poll_time c 0\<rparr>"

definition pulse_result :: "ctx \<Rightarrow> nat \<Rightarrow> ctx" where
  "pulse_result c k = c\<lparr>regs := (regs c)\<lparr>TM2C := 0, TM2CT := 0, TM2B := 211, TM2S := 0, PA := 0\<rparr>,
     previoustime := poll_time c 0, millis_reads := millis_reads c + Suc k\<rparr>"

text \<open>
  Two readings of "a LOW-then-HIGH transition is observed before the budget elapses".
  \<open>edge_before_budget\<close>: the budget has not elapsed at the poll that sees the edge, nor
  before. \<open>edge_in_time\<close>: the budget has not elapsed at any earlier poll; at the poll that
  sees the edge it may have.
\<close>

definition edge_before_budget :: "s16 \<Rightarrow> ctx \<Rightarrow> bool" where
  "edge_before_budget time c = (\<exists>j. edge_at c j \<and> (\<forall>i\<le>j. \<not> elapsed_at time c i))"

definition edge_in_time :: "s16 \<Rightarrow> ctx \<Rightarrow> bool" where
  "edge_in_time time c = (\<exists>j. edge_at c j \<and> (\<forall>i<j. \<not> elapsed_at time c i))"

text \<open>
  The argument pairs of one pass through the body of each pattern function, in the order
  in which its inner loops call \<open>setled\<close>, and the pattern functions with them.
\<close>

definition singleledccw_steps :: "(s8 \<times> s8) list" where
  "singleledccw_steps = map (\<lambda>i. (of_nat i, 20)) i20 @ map (\<lambda>i. (20, of_nat (19 - i))) i20"

definition singleledcw_steps :: "(s8 \<times> s8) list" where
  "singleledcw_steps = map (\<lambda>i. (20, of_nat i)) i20 @ map (\<lambda>i. (of_nat (19 - i), 20)) i20"

definition twoledsccw_steps :: "(s8 \<times> s8) list" where
  "twoledsccw_steps = map (\<lambda>i. (of_nat i, of_nat (19 - i))) i20"

definition twoledscw_steps :: "(s8 \<times> s8) list" where
  "twoledscw_steps = map (\<lambda>i. (of_nat (19 - i), of_nat i)) i20"

definition twoledsflapdown_steps :: "(s8 \<times> s8) list" where
  "twoledsflapdown_steps = map (\<lambda>i. (of_nat i, of_nat i)) i20"

definition twoledsflapup_steps :: "(s8 \<times> s8) list" where
  "twoledsflapup_steps = map (\<lambda>i. (of_nat (19 - i), of_nat (19 - i))) i20"

definition twoledsflap_steps :: "(s8 \<times> s8) list" where
  "twoledsflap_steps = map (\<lambda>i. (of_nat i, of_nat i)) i20 @ map (\<lambda>i. (of_nat (19 - i), of_nat (19 - i))) i20"

definition twoledsrandom_steps :: "(s8 \<times> s8) list" where
  "twoledsrandom_steps = random_pass1 @ random_pass2 @ random_pass3 @ random_pass4"

definition builtin_patterns :: "((u8 \<Rightarrow> ctx \<Rightarrow> ctx option) \<times> (s8 \<times> s8) list) list" where
  "builtin_patterns =
    [(singleledccw, singleledccw_steps), (singleledcw, singleledcw_steps),
     (twoledsccw, twoledsccw_steps), (twoledscw, twoledscw_steps),
     (twoledsflapdown, twoledsflapdown_steps), (twoledsflapup, twoledsflapup_steps),
     (twoledsflap, twoledsflap_steps), (twoledsrandom, twoledsrandom_steps)]"

text \<open>
  No sync edge ever occurs: \<open>pin_history c\<close> is the recorded pin state followed by the
  levels the coming polls will sample; in it no LOW is ever followed by a HIGH.
  \<open>clock_advances\<close>: whatever the Timing Baseline, the clock sooner or later reads at
  least 25 ms past it, so that no wait of 25 ms lasts forever.
\<close>

definition pin_history :: "ctx \<Rightarrow> nat \<Rightarrow> u8" where
  "pin_history c j = (case j of 0 \<Rightarrow> previouspinstate c | Suc i \<Rightarrow> poll_pin c i)"

definition no_rising_edge :: "ctx \<Rightarrow> bool" where
  "no_rising_edge c = ((previouspinstate c = 0 \<or> previouspinstate c = 1) \<and>
     (\<forall>i j. i < j \<longrightarrow> pin_history c i = 0 \<longrightarrow> pin_history c j = 0))"

definition clock_advances :: "ctx \<Rightarrow> bool" where
  "clock_advances c = (\<forall>p i. \<exists>j\<ge>i. \<not> elapsedmillis c j - p < 25)"

text \<open>
  Wraparound-safe ordering of timestamps: \<open>p'\<close> is not before \<open>p\<close> when the unsigned
  difference \<open>p' - p\<close> is in the lower half of the range. \<open>clock_monotonic N c\<close>: up to
  the \<open>N\<close>-th read of the clock, the readings still to come are non-decreasing and less
  than half the range ahead of the Timing Baseline (the counter itself may wrap).
\<close>

definition moved_forward :: "u32 \<Rightarrow> u32 \<Rightarrow> bool" where
  "moved_forward p p' = (unat (p' - p) < 2 ^ 31)"

definition clock_monotonic :: "nat \<Rightarrow> ctx \<Rightarrow> bool" where
  "clock_monotonic N c = (\<forall>i j. i \<le> j \<longrightarrow> millis_reads c + j < N \<longrightarrow>
     unat (poll_time c i - previoustime c) \<le> unat (poll_time c j - previoustime c) \<and>
     unat (poll_time c j - previoustime c) < 2 ^ 31)"

text \<open>
  The bits of the port registers that belong to the left side (PA7, PB4 to PB7) and to the
  right side (PA0, PB0 to PB3). A side is off when all its pins are inputs.
\<close>

definition left_pins :: "registers \<Rightarrow> u8 \<times> u8 \<times> u8 \<times> u8" where
  "left_pins r = (PA r AND 0x80, PAC r AND 0x80, PB r AND 0xf0, PBC r AND 0xf0)"

definition right_pins :: "registers \<Rightarrow> u8 \<times> u8 \<times> u8 \<times> u8" where
  "right_pins r = (PA r AND 0x01, PAC r AND 0x01, PB r AND 0x0f, PBC r AND 0x0f)"

definition left_off :: "registers \<Rightarrow> bool" where
  "left_off r = (PAC r AND 0x80 = 0 \<and> PBC r AND 0xf0 = 0)"

definition right_off :: "registers \<Rightarrow> bool" where
  "right_off r = (PAC r AND 0x01 = 0 \<and> PBC r AND 0x0f = 0)"







subsection \<open>Concrete executions\<close>

text \<open>
  Contexts on which the properties are exercised. In all of them the sync pin idles HIGH
  (bit 4 of port A set) and the recorded pin state is HIGH, as after \<open>setup\<close>.
  \<^item> \<open>idle_ctx\<close>: no pulse ever arrives; the clock advances by 1 ms from one read to the next.
  \<^item> \<open>late_edge_ctx\<close>: the pin is LOW at the first poll, at clock 24, and HIGH from the
    second poll on, at clock 25: the rising edge is seen by the poll at which a budget of
    25 ms has just elapsed.
  \<^item> \<open>abort_ctx\<close>: the clock advances by 5 ms from one read to the next and the pin is
    LOW at the ninth poll only, so that the first wait of 25 ms times out and the second
    one sees a rising edge.
  \<^item> \<open>sim_ctx\<close>: a simulated clock without polling overhead. It advances by 1 ms from one
    read to the next during a wait, reaches the deadline at the 26th read, and has not moved
    when the following wait takes its first read: read \<open>k\<close> returns
    \<open>25 * (k div 26) + k mod 26\<close>.

Both \<open>sim_ctx\<close> and, after \<open>setup\<close>, \<open>idle_ctx\<close> keep the waits of 25 ms on a schedule.
  \<open>regular_clock a E\<close> says of the clock \<open>E\<close> that the \<open>v\<close>-th wait takes \<open>a\<close> reads, the last
  of which returns the deadline \<open>25 * (v + 1)\<close>: \<open>a\<close> is 26 on the simulated clock and 25
  on the clock of \<open>idle_ctx\<close>, whose first read is taken by \<open>setup\<close>. \<open>on_schedule E a w c\<close>
  says that \<open>c\<close> is what \<open>w\<close> waits of 25 ms leave on such a clock: \<open>a\<close> reads and 25 ms of
  Timing Baseline per wait.
\<close>

definition late_edge_ctx :: ctx where
  "late_edge_ctx = \<lparr>state = 3, previoustime = 0, previouspinstate = 1,
     regs = \<lparr>PA = 0, PAC = 8, PAPH = 0x76, PB = 0, PBC = 0, PBPH = 0,
              TM2C = 0, TM2CT = 0, TM2B = 0, TM2S = 0\<rparr>,
     elapsedmillis = (\<lambda>k. 24 + of_nat k), millis_reads = 0,
     PA_in = (\<lambda>k. if k = 0 then 0x00 else 0x10), PA_reads = 0\<rparr>"

definition idle_ctx :: ctx where
  "idle_ctx = \<lparr>state = 0, previoustime = 0, previouspinstate = 1,
     regs = \<lparr>PA = 0, PAC = 8, PAPH = 0x76, PB = 0, PBC = 0, PBPH = 0,
              TM2C = 0, TM2CT = 0, TM2B = 0, TM2S = 0\<rparr>,
     elapsedmillis = (\<lambda>k. of_nat k), millis_reads = 0,
     PA_in = (\<lambda>k. 0x10), PA_reads = 0\<rparr>"

definition abort_ctx :: ctx where
  "abort_ctx = \<lparr>state = 1, previoustime = 0, previouspinstate = 1,
     regs = \<lparr>PA = 0, PAC = 8, PAPH = 0x76, PB = 0, PBC = 0, PBPH = 0,
              TM2C = 0, TM2CT = 0, TM2B = 0, TM2S = 0\<rparr>,
     elapsedmillis = (\<lambda>k. 5 * of_nat k), millis_reads = 0,
     PA_in = (\<lambda>k. if k = 8 then 0x00 else 0x10), PA_reads = 0\<rparr>"

definition sim_clock :: "nat \<Rightarrow> u32" where
  "sim_clock k = of_nat (25 * (k div 26) + k mod 26)"

definition sim_ctx :: ctx where
  "sim_ctx = \<lparr>state = 0, previoustime = 0, previouspinstate = 1,
     regs = \<lparr>PA = 0, PAC = 8, PAPH = 0x76, PB = 0, PBC = 0, PBPH = 0,
              TM2C = 0, TM2CT = 0, TM2B = 0, TM2S = 0\<rparr>,
     elapsedmillis = sim_clock, millis_reads = 0,
     PA_in = (\<lambda>k. 0x10), PA_reads = 0\<rparr>"

definition regular_clock :: "nat \<Rightarrow> (nat \<Rightarrow> u32) \<Rightarrow> bool" where
  "regular_clock a E = (1 \<le> a \<and> a \<le> 26 \<and>
     (\<forall>v j. j < a \<longrightarrow> E (a * v + (26 - a) + j) = of_nat (25 * v + (26 - a) + j)))"

definition on_schedule :: "(nat \<Rightarrow> u32) \<Rightarrow> nat \<Rightarrow> nat \<Rightarrow> ctx \<Rightarrow> bool" where
  "on_schedule E a w c = (regular_clock a E \<and> elapsedmillis c = E \<and>
     millis_reads c = a * w + (26 - a) \<and> previoustime c = of_nat (25 * w) \<and> no_rising_edge c)"

section \<open>The polling loop of waituntil\<close>

text \<open>
  The loop leaves at the first poll at which its condition fails, and \<open>waituntil\<close> then
  returns \<open>wait_result\<close> for that poll; if the condition never fails, it does not return.
\<close>

lemma poll_pin_01: "poll_pin c j = 0 \<or> poll_pin c j = 1"
  unfolding poll_pin_def
  by (simp add: and_one_eq) (metis even_iff_mod_2_eq_zero odd_iff_mod_2_eq_one)

lemma loop_cond_polling:
  "(poll_time c j - previoustime (after_polls c j) < scast time \<and>
     (poll_pin c j = 0 \<or> previouspinstate (after_polls c j) = 1)) = polling_at time c j"
  by (simp add: polling_at_def elapsed_at_def after_polls_def)

lemma millis_after_polls:
  "fst (millis (after_polls c j)) = poll_time c (Suc j)"
  by (simp add: millis_def after_polls_def poll_time_def)

lemma read_pin_after_polls:
  "read_pin ((snd (millis (after_polls c j)))\<lparr>previouspinstate := poll_pin c j\<rparr>) =
     (poll_pin c (Suc j), after_polls c (Suc j))"
proof -
  have "(snd (millis (after_polls c j)))\<lparr>previouspinstate := poll_pin c j,
          PA_reads := Suc (PA_reads (after_polls c j))\<rparr> = after_polls c (Suc j)"
    by (simp add: millis_def after_polls_def poll_prev_def)
  moreover have "PA_in (after_polls c j) = PA_in c" "PA_reads (after_polls c j) = PA_reads c + Suc j"
    by (simp_all add: after_polls_def)
  ultimately show ?thesis
    by (simp add: read_pin_def millis_def poll_pin_def)
qed

lemma loop_next:
  "(let (currenttime', c1) = millis (after_polls c j);
        c2 = c1\<lparr>previouspinstate := poll_pin c j\<rparr>;
        (currentpinstate', c3) = read_pin c2
    in f currenttime' currentpinstate' c3) =
   f (poll_time c (Suc j)) (poll_pin c (Suc j)) (after_polls c (Suc j))"
  by (simp only: Let_def split_beta millis_after_polls read_pin_after_polls fst_conv snd_conv)

lemma waituntil_loop_run:
  "\<not> polling_at time c (j + k) \<Longrightarrow> (\<forall>i<k. polling_at time c (j + i)) \<Longrightarrow>
   waituntil_loop (scast time) (poll_time c j) (poll_pin c j) (after_polls c j) =
     Some (poll_time c (j + k), poll_pin c (j + k), after_polls c (j + k))"
proof (induction k arbitrary: j)
  case 0
  then show ?case
    by (subst waituntil_loop.simps) (simp add: loop_cond_polling)
next
  case (Suc k)
  have now: "polling_at time c j"
    using Suc.prems(2) by (metis add.right_neutral zero_less_Suc)
  have stop: "\<not> polling_at time c (Suc j + k)"
    using Suc.prems(1) by simp
  have before: "\<forall>i<k. polling_at time c (Suc j + i)"
  proof (intro allI impI)
    fix i assume "i < k"
    then have "Suc i < Suc k" by simp
    then have "polling_at time c (j + Suc i)" using Suc.prems(2) by blast
    then show "polling_at time c (Suc j + i)" by simp
  qed
  have "waituntil_loop (scast time) (poll_time c j) (poll_pin c j) (after_polls c j) =
        waituntil_loop (scast time) (poll_time c (Suc j)) (poll_pin c (Suc j)) (after_polls c (Suc j))"
    by (subst waituntil_loop.simps) (simp only: loop_cond_polling now if_True loop_next)
  also have "\<dots> = Some (poll_time c (Suc j + k), poll_pin c (Suc j + k), after_polls c (Suc j + k))"
    by (rule Suc.IH [OF stop before])
  finally show ?case by simp
qed

lemma waituntil_loop_stops:
  assumes "waituntil_loop b ct cp c1 = Some y"
  shows "\<forall>(time::s16) c j. b = scast time \<longrightarrow> ct = poll_time c j \<longrightarrow> cp = poll_pin c j \<longrightarrow>
           c1 = after_polls c j \<longrightarrow> (\<exists>k. \<not> polling_at time c (j + k))"
proof (rule waituntil_loop.raw_induct [OF _ assms], intro allI impI)
  fix f b ct cp c1 and y :: "u32 \<times> u8 \<times> ctx" and time :: s16 and c j
  assume IH: "\<And>b ct cp c1 y. f b ct cp c1 = Some y \<Longrightarrow>
      \<forall>(time::s16) c j. b = scast time \<longrightarrow> ct = poll_time c j \<longrightarrow> cp = poll_pin c j \<longrightarrow>
           c1 = after_polls c j \<longrightarrow> (\<exists>k. \<not> polling_at time c (j + k))"
    and step: "(if ct - previoustime c1 < b \<and> (cp = 0 \<or> previouspinstate c1 = 1)
      then let (currenttime', c1') = millis c1;
               c2 = c1'\<lparr>previouspinstate := cp\<rparr>;
               (currentpinstate', c3) = read_pin c2
           in f b currenttime' currentpinstate' c3
      else Some (ct, cp, c1)) = Some y"
    and b: "b = scast time" and ct: "ct = poll_time c j" and cp: "cp = poll_pin c j"
    and c1: "c1 = after_polls c j"
  show "\<exists>k. \<not> polling_at time c (j + k)"
  proof (cases "polling_at time c j")
    case False
    then have "\<not> polling_at time c (j + 0)" by simp
    then show ?thesis by blast
  next
    case True
    with step have "f (scast time) (poll_time c (Suc j)) (poll_pin c (Suc j)) (after_polls c (Suc j)) = Some y"
      unfolding b ct cp c1 by (simp only: loop_cond_polling if_True loop_next)
    from IH [OF this, rule_format, of time c "Suc j"]
    have "\<exists>k. \<not> polling_at time c (Suc j + k)" by simp
    then obtain k where "\<not> polling_at time c (j + Suc k)" by auto
    then show ?thesis by blast
  qed
qed

lemma waituntil_entry:
  "waituntil time c =
    (case waituntil_loop (scast time) (poll_time c 0) (poll_pin c 0) (after_polls c 0) of
          None \<Rightarrow> None
        | Some (currenttime, currentpinstate, c3) \<Rightarrow>
            if currentpinstate = 1 \<and> previouspinstate c3 = 0
            then Some (1, c3\<lparr>state := 0, previoustime := currenttime, previouspinstate := 1\<rparr>)
            else Some (0, c3\<lparr>previoustime := previoustime c3 + scast time\<rparr>))"
proof -
  have "c\<lparr>millis_reads := Suc (millis_reads c), PA_reads := Suc (PA_reads c)\<rparr> = after_polls c 0"
    by (simp add: after_polls_def poll_prev_def)
  then show ?thesis
    by (simp add: waituntil_def millis_def read_pin_def poll_time_def poll_pin_def)
qed

lemma waituntil_stop_at:
  assumes "\<not> polling_at time c k" "\<forall>i<k. polling_at time c i"
  shows "waituntil time c = Some (wait_result time c k)"
proof -
  have "waituntil_loop (scast time) (poll_time c 0) (poll_pin c 0) (after_polls c 0) =
     Some (poll_time c (0 + k), poll_pin c (0 + k), after_polls c (0 + k))"
    by (rule waituntil_loop_run) (use assms in simp_all)
  then show ?thesis
    by (simp add: waituntil_entry wait_result_def edge_at_def after_polls_def)
qed

lemma waituntil_Some:
  assumes "waituntil time c = Some rc"
  shows "\<exists>k. \<not> polling_at time c k \<and> (\<forall>i<k. polling_at time c i) \<and> rc = wait_result time c k"
proof -
  from assms obtain y where "waituntil_loop (scast time) (poll_time c 0) (poll_pin c 0) (after_polls c 0) = Some y"
    by (auto simp: waituntil_entry split: option.splits)
  from waituntil_loop_stops [OF this] have "\<exists>k. \<not> polling_at time c (0 + k)" by blast
  then have ex: "\<exists>k. \<not> polling_at time c k" by simp
  define k where "k = (LEAST k. \<not> polling_at time c k)"
  have stop: "\<not> polling_at time c k" unfolding k_def using ex by (rule LeastI_ex)
  have before: "\<forall>i<k. polling_at time c i" unfolding k_def using not_less_Least by blast
  from waituntil_stop_at [OF stop before] assms have "rc = wait_result time c k" by simp
  with stop before show ?thesis by blast
qed

lemma edge_not_polling: "edge_at c j \<Longrightarrow> \<not> polling_at time c j"
  by (simp add: edge_at_def polling_at_def)

lemma poll_prev_01:
  "previouspinstate c = 0 \<or> previouspinstate c = 1 \<Longrightarrow> poll_prev c j = 0 \<or> poll_prev c j = 1"
  by (simp add: poll_prev_def poll_pin_01)

lemma stop_cases:
  assumes "previouspinstate c = 0 \<or> previouspinstate c = 1" "\<not> polling_at time c k"
  shows "elapsed_at time c k \<or> edge_at c k"
  using assms(2) poll_pin_01 [of c k] poll_prev_01 [OF assms(1), of k]
  by (auto simp: polling_at_def edge_at_def)

lemma first_stop:
  assumes "\<not> polling_at time c k"
  shows "\<exists>m\<le>k. \<not> polling_at time c m \<and> (\<forall>i<m. polling_at time c i)"
proof -
  define m where "m = (LEAST m. \<not> polling_at time c m)"
  have "\<not> polling_at time c m" unfolding m_def using assms by (rule LeastI)
  moreover have "\<forall>i<m. polling_at time c i" unfolding m_def using not_less_Least by blast
  moreover have "m \<le> k" unfolding m_def using assms by (rule Least_le)
  ultimately show ?thesis by blast
qed

lemma no_edge_pins:
  assumes "previouspinstate c = 0 \<or> previouspinstate c = 1" "\<not> edge_at c j"
  shows "poll_pin c j = 0 \<or> poll_prev c j = 1"
  using assms(2) poll_pin_01 [of c j] poll_prev_01 [OF assms(1), of j]
  by (auto simp: edge_at_def)

lemma wait_result_one:
  "wait_result time c k = (1, c') \<Longrightarrow> edge_at c k \<and> state c' = 0 \<and> previouspinstate c' = 1 \<and>
     previoustime c' = poll_time c k \<and> millis_reads c' = millis_reads c + Suc k"
  by (auto simp: wait_result_def after_polls_def split: if_splits)

lemma waituntil_one_state:
  assumes "waituntil time c = Some (1, c')"
  shows "state c' = 0"
proof -
  from waituntil_Some [OF assms] obtain k where "(1, c') = wait_result time c k" by blast
  then show ?thesis using wait_result_one [of time c k c'] by simp
qed

lemma small_of_nat_less:
  assumes "j < 25"
  shows "(of_nat j :: u32) < 25"
proof -
  have "unat (of_nat j :: u32) = j" using assms by (simp add: unat_of_nat)
  with assms show ?thesis by (simp add: word_less_nat_alt)
qed

section \<open>The waiting loop of syncpulse\<close>

lemma pulse_cond:
  "(poll_time c j - previoustime (pulse_ctx c j) < scast time) = pulse_on_at time c j"
  by (simp add: pulse_on_at_def pulse_ctx_def)

lemma pulse_next:
  "(let (currenttime', c1) = millis (pulse_ctx c j) in f currenttime' c1) =
   f (poll_time c (Suc j)) (pulse_ctx c (Suc j))"
proof -
  have "snd (millis (pulse_ctx c j)) = pulse_ctx c (Suc j)"
    by (simp add: millis_def pulse_ctx_def)
  moreover have "fst (millis (pulse_ctx c j)) = poll_time c (Suc j)"
    by (simp add: millis_def pulse_ctx_def poll_time_def)
  ultimately show ?thesis
    by (simp only: Let_def split_beta)
qed

lemma syncpulse_loop_run:
  "\<not> pulse_on_at time c (j + k) \<Longrightarrow> (\<forall>i<k. pulse_on_at time c (j + i)) \<Longrightarrow>
   syncpulse_loop (scast time) (poll_time c j) (pulse_ctx c j) = Some (pulse_ctx c (j + k))"
proof (induction k arbitrary: j)
  case 0
  then show ?case
    by (subst syncpulse_loop.simps) (simp add: pulse_cond)
next
  case (Suc k)
  have now: "pulse_on_at time c j"
    using Suc.prems(2) by (metis add.right_neutral zero_less_Suc)
  have stop: "\<not> pulse_on_at time c (Suc j + k)"
    using Suc.prems(1) by simp
  have before: "\<forall>i<k. pulse_on_at time c (Suc j + i)"
  proof (intro allI impI)
    fix i assume "i < k"
    then have "Suc i < Suc k" by simp
    then have "pulse_on_at time c (j + Suc i)" using Suc.prems(2) by blast
    then show "pulse_on_at time c (Suc j + i)" by simp
  qed
  have "syncpulse_loop (scast time) (poll_time c j) (pulse_ctx c j) =
        syncpulse_loop (scast time) (poll_time c (Suc j)) (pulse_ctx c (Suc j))"
    by (subst syncpulse_loop.simps) (simp only: pulse_cond now if_True pulse_next)
  also have "\<dots> = Some (pulse_ctx c (Suc j + k))"
    by (rule Suc.IH [OF stop before])
  finally show ?case by simp
qed

lemma syncpulse_loop_stops:
  assumes "syncpulse_loop b ct c1 = Some y"
  shows "\<forall>(time::s16) c j. b = scast time \<longrightarrow> ct = poll_time c j \<longrightarrow> c1 = pulse_ctx c j \<longrightarrow>
           (\<exists>k. \<not> pulse_on_at time c (j + k))"
proof (rule syncpulse_loop.raw_induct [OF _ assms], intro allI impI)
  fix f b ct c1 and y :: ctx and time :: s16 and c j
  assume IH: "\<And>b ct c1 y. f b ct c1 = Some y \<Longrightarrow>
      \<forall>(time::s16) c j. b = scast time \<longrightarrow> ct = poll_time c j \<longrightarrow> c1 = pulse_ctx c j \<longrightarrow>
           (\<exists>k. \<not> pulse_on_at time c (j + k))"
    and step: "(if ct - previoustime c1 < b
      then let (currenttime', c1') = millis c1 in f b currenttime' c1'
      else Some c1) = Some y"
    and b: "b = scast time" and ct: "ct = poll_time c j" and c1: "c1 = pulse_ctx c j"
  show "\<exists>k. \<not> pulse_on_at time c (j + k)"
  proof (cases "pulse_on_at time c j")
    case False
    then have "\<not> pulse_on_at time c (j + 0)" by simp
    then show ?thesis by blast
  next
    case True
    with step have "f (scast time) (poll_time c (Suc j)) (pulse_ctx c (Suc j)) = Some y"
      unfolding b ct c1 by (simp only: pulse_cond if_True pulse_next)
    from IH [OF this, rule_format, of time c "Suc j"]
    have "\<exists>k. \<not> pulse_on_at time c (Suc j + k)" by simp
    then obtain k where "\<not> pulse_on_at time c (j + Suc k)" by auto
    then show ?thesis by blast
  qed
qed

lemma syncpulse_entry:
  "syncpulse time c =
    (case syncpulse_loop (scast time) (poll_time c 0) (pulse_ctx c 0) of
       None \<Rightarrow> None
     | Some c4 \<Rightarrow> Some (c4\<lparr>regs := (regs c4)\<lparr>TM2C := 0, PA := 0\<rparr>\<rparr>))"
  by (simp add: syncpulse_def millis_def poll_time_def pulse_ctx_def)

lemma syncpulse_stop_at:
  assumes "\<not> pulse_on_at time c k" "\<forall>i<k. pulse_on_at time c i"
  shows "syncpulse time c = Some (pulse_result c k)"
proof -
  have "syncpulse_loop (scast time) (poll_time c 0) (pulse_ctx c 0) = Some (pulse_ctx c (0 + k))"
    by (rule syncpulse_loop_run) (use assms in simp_all)
  then show ?thesis
    by (simp add: syncpulse_entry pulse_result_def pulse_ctx_def)
qed

lemma syncpulse_Some:
  assumes "syncpulse time c = Some c'"
  shows "\<exists>k. \<not> pulse_on_at time c k \<and> (\<forall>i<k. pulse_on_at time c i) \<and> c' = pulse_result c k"
proof -
  from assms obtain y where "syncpulse_loop (scast time) (poll_time c 0) (pulse_ctx c 0) = Some y"
    by (auto simp: syncpulse_entry split: option.splits)
  from syncpulse_loop_stops [OF this] have "\<exists>k. \<not> pulse_on_at time c (0 + k)" by blast
  then have ex: "\<exists>k. \<not> pulse_on_at time c k" by simp
  define k where "k = (LEAST k. \<not> pulse_on_at time c k)"
  have stop: "\<not> pulse_on_at time c k" unfolding k_def using ex by (rule LeastI_ex)
  have before: "\<forall>i<k. pulse_on_at time c i" unfolding k_def using not_less_Least by blast
  from syncpulse_stop_at [OF stop before] assms have "c' = pulse_result c k" by simp
  with stop before show ?thesis by blast
qed

lemma first_pulse_stop:
  assumes "\<not> pulse_on_at time c k"
  shows "\<exists>m\<le>k. \<not> pulse_on_at time c m \<and> (\<forall>i<m. pulse_on_at time c i)"
proof -
  define m where "m = (LEAST m. \<not> pulse_on_at time c m)"
  have "\<not> pulse_on_at time c m" unfolding m_def using assms by (rule LeastI)
  moreover have "\<forall>i<m. pulse_on_at time c i" unfolding m_def using not_less_Least by blast
  moreover have "m \<le> k" unfolding m_def using assms by (rule Least_le)
  ultimately show ?thesis by blast
qed

section \<open>Sync detection and timeout\<close>

text \<open>
  Claim C1, as amended. In a context whose recorded pin state is 0 or 1, \<open>waituntil(time)\<close>
  returns 1 (SyncDetected) exactly when some poll sees a LOW-then-HIGH transition and the
  budget had not elapsed at any earlier poll. The budget may have elapsed at the poll that
  sees the edge: the edge test after the loop does not look at the clock. In particular,
  when the recorded pin state is HIGH and every poll samples HIGH, \<open>waituntil\<close> returns 0
  (TimedOut) once the budget has elapsed at some poll.
\<close>

theorem waituntil_sync_iff:
  assumes "previouspinstate c = 0 \<or> previouspinstate c = 1"
  shows "((\<exists>c'. waituntil time c = Some (1, c')) \<longleftrightarrow> edge_in_time time c) \<and>
         (previouspinstate c = 1 \<and> (\<forall>j. poll_pin c j = 1) \<and> (\<exists>k. elapsed_at time c k)
            \<longrightarrow> (\<exists>c'. waituntil time c = Some (0, c')))"
proof (intro conjI iffI impI)
  assume "\<exists>c'. waituntil time c = Some (1, c')"
  then obtain c' where "waituntil time c = Some (1, c')" ..
  from waituntil_Some [OF this] obtain k where
    k: "\<not> polling_at time c k" "\<forall>i<k. polling_at time c i" "(1, c') = wait_result time c k"
    by blast
  from k(3) have "edge_at c k"
    by (auto simp: wait_result_def split: if_splits)
  moreover from k(2) have "\<forall>i<k. \<not> elapsed_at time c i"
    by (simp add: polling_at_def)
  ultimately show "edge_in_time time c" unfolding edge_in_time_def by blast
next
  assume "edge_in_time time c"
  then obtain j where j: "edge_at c j" "\<forall>i<j. \<not> elapsed_at time c i"
    unfolding edge_in_time_def by blast
  from first_stop [OF edge_not_polling [OF j(1)]] obtain m where
    m: "m \<le> j" "\<not> polling_at time c m" "\<forall>i<m. polling_at time c i" by blast
  have "edge_at c m"
  proof (cases "m = j")
    case True with j(1) show ?thesis by simp
  next
    case False
    with m(1) have "m < j" by simp
    with j(2) have "\<not> elapsed_at time c m" by simp
    with stop_cases [OF assms m(2)] show ?thesis by simp
  qed
  then have "wait_result time c m = (1, snd (wait_result time c m))"
    by (simp add: wait_result_def)
  with waituntil_stop_at [OF m(2,3)] show "\<exists>c'. waituntil time c = Some (1, c')"
    by metis
next
  assume a: "previouspinstate c = 1 \<and> (\<forall>j. poll_pin c j = 1) \<and> (\<exists>k. elapsed_at time c k)"
  then obtain k where "elapsed_at time c k" by blast
  then have "\<not> polling_at time c k" by (simp add: polling_at_def)
  from first_stop [OF this] obtain m where
    m: "\<not> polling_at time c m" "\<forall>i<m. polling_at time c i" by blast
  from a have "\<not> edge_at c m"
    by (simp add: edge_at_def poll_prev_def)
  then have "wait_result time c m = (0, snd (wait_result time c m))"
    by (simp add: wait_result_def)
  with waituntil_stop_at [OF m] show "\<exists>c'. waituntil time c = Some (0, c')"
    by metis
qed

text \<open>
  The claim as first stated wants the edge seen strictly before the budget elapses. In
  \<open>late_edge_ctx\<close> the only edge is seen by the poll at which the budget has elapsed, and
  \<open>waituntil\<close> returns 1.
\<close>

theorem waituntil_sync_counterexample:
  "map_option fst (waituntil 25 late_edge_ctx) = Some 1 \<and> \<not> edge_before_budget 25 late_edge_ctx"
proof
  show "map_option fst (waituntil 25 late_edge_ctx) = Some 1"
    by (simp add: waituntil_def late_edge_ctx_def millis_def read_pin_def waituntil_loop.simps)
  have e1: "elapsed_at 25 late_edge_ctx 1"
    by (simp add: elapsed_at_def poll_time_def late_edge_ctx_def)
  have e0: "\<not> edge_at late_edge_ctx 0"
    by (simp add: edge_at_def poll_pin_def late_edge_ctx_def)
  show "\<not> edge_before_budget 25 late_edge_ctx"
    unfolding edge_before_budget_def
  proof
    assume "\<exists>j. edge_at late_edge_ctx j \<and> (\<forall>i\<le>j. \<not> elapsed_at 25 late_edge_ctx i)"
    then obtain j where j: "edge_at late_edge_ctx j" "\<forall>i\<le>j. \<not> elapsed_at 25 late_edge_ctx i"
      by blast
    show False
    proof (cases j)
      case 0 with j(1) e0 show ?thesis by simp
    next
      case (Suc n)
      then have "1 \<le> j" by simp
      with j(2) e1 show ?thesis by blast
    qed
  qed
qed

theorem waituntil_sync_iff_witness:
  "edge_in_time 25 late_edge_ctx \<and> (\<exists>c'. waituntil 25 late_edge_ctx = Some (1, c')) \<and>
   (\<exists>c'. waituntil 25 idle_ctx = Some (0, c'))"
proof -
  have p: "previouspinstate late_edge_ctx = 0 \<or> previouspinstate late_edge_ctx = 1"
    by (simp add: late_edge_ctx_def)
  have "edge_at late_edge_ctx 1"
    by (simp add: edge_at_def poll_pin_def poll_prev_def late_edge_ctx_def)
  moreover have "\<forall>i<1. \<not> elapsed_at 25 late_edge_ctx i"
    by (simp add: elapsed_at_def poll_time_def late_edge_ctx_def)
  ultimately have e: "edge_in_time 25 late_edge_ctx"
    unfolding edge_in_time_def by blast
  have q: "previouspinstate idle_ctx = 0 \<or> previouspinstate idle_ctx = 1"
    by (simp add: idle_ctx_def)
  have "elapsed_at 25 idle_ctx 25"
    by (simp add: elapsed_at_def poll_time_def idle_ctx_def)
  then have h: "previouspinstate idle_ctx = 1 \<and> (\<forall>j. poll_pin idle_ctx j = 1) \<and>
      (\<exists>k. elapsed_at 25 idle_ctx k)"
    by (auto simp: idle_ctx_def poll_pin_def)
  from e h waituntil_sync_iff [OF p, of 25] waituntil_sync_iff [OF q, of 25]
  show ?thesis by blast
qed

text \<open>
  Claim C2. If the budget has elapsed at some poll \<open>k\<close> and no poll up to \<open>k\<close> sees a rising
  edge, \<open>waituntil(time)\<close> returns 0 (TimedOut) and the Timing Baseline \<open>previoustime\<close> is
  advanced by exactly the budget, whatever the clock has read while polling.
\<close>

theorem waituntil_timeout:
  assumes "elapsed_at time c k" "\<forall>j\<le>k. \<not> edge_at c j"
  shows "\<exists>c'. waituntil time c = Some (0, c') \<and> previoustime c' = previoustime c + scast time"
proof -
  from assms(1) have "\<not> polling_at time c k" by (simp add: polling_at_def)
  from first_stop [OF this] obtain m where
    m: "m \<le> k" "\<not> polling_at time c m" "\<forall>i<m. polling_at time c i" by blast
  from m(1) assms(2) have "\<not> edge_at c m" by simp
  then have "wait_result time c m = (0, (after_polls c m)\<lparr>previoustime := previoustime c + scast time\<rparr>)"
    by (simp add: wait_result_def)
  with waituntil_stop_at [OF m(2,3)] show ?thesis by simp
qed

theorem waituntil_timeout_witness:
  "\<exists>c'. waituntil 25 idle_ctx = Some (0, c') \<and> previoustime c' = 25"
proof -
  have e: "elapsed_at 25 idle_ctx 25"
    by (simp add: elapsed_at_def poll_time_def idle_ctx_def)
  have n: "\<forall>j\<le>25. \<not> edge_at idle_ctx j"
    by (simp add: edge_at_def poll_prev_def poll_pin_def idle_ctx_def)
  from waituntil_timeout [OF e n] show ?thesis
    by (simp add: idle_ctx_def)
qed

text \<open>
  Claim C5. When poll \<open>k\<close> sees a rising edge (previous sample LOW, current sample HIGH)
  and the loop was still polling before it, \<open>waituntil\<close> returns 1 with \<open>state\<close> set to 0,
  \<open>previoustime\<close> set to the clock value sampled by poll \<open>k\<close> and \<open>previouspinstate\<close> set
  to 1. And whenever \<open>waituntil\<close> returns 1, it has done so for some poll that saw the edge.
\<close>

theorem waituntil_edge_effects:
  "(edge_at c k \<and> (\<forall>i<k. polling_at time c i) \<longrightarrow>
      (\<exists>c'. waituntil time c = Some (1, c') \<and> state c' = 0 \<and>
            previoustime c' = poll_time c k \<and> previouspinstate c' = 1)) \<and>
   (waituntil time c = Some (1, c1) \<longrightarrow>
      state c1 = 0 \<and> previouspinstate c1 = 1 \<and>
      (\<exists>k. edge_at c k \<and> previoustime c1 = poll_time c k))"
proof (intro conjI impI)
  assume a: "edge_at c k \<and> (\<forall>i<k. polling_at time c i)"
  then have "wait_result time c k =
      (1, (after_polls c k)\<lparr>state := 0, previoustime := poll_time c k, previouspinstate := 1\<rparr>)"
    by (simp add: wait_result_def)
  moreover have "waituntil time c = Some (wait_result time c k)"
    using a by (intro waituntil_stop_at edge_not_polling) simp_all
  ultimately show "\<exists>c'. waituntil time c = Some (1, c') \<and> state c' = 0 \<and>
      previoustime c' = poll_time c k \<and> previouspinstate c' = 1"
    by simp
next
  assume "waituntil time c = Some (1, c1)"
  from waituntil_Some [OF this] obtain k where "(1, c1) = wait_result time c k" by blast
  then have r: "wait_result time c k = (1, c1)" by simp
  from wait_result_one [OF r] show "state c1 = 0" by simp
  from wait_result_one [OF r] show "previouspinstate c1 = 1" by simp
  from wait_result_one [OF r] show "\<exists>k. edge_at c k \<and> previoustime c1 = poll_time c k" by blast
qed

theorem waituntil_edge_effects_witness:
  "\<exists>c'. waituntil 25 late_edge_ctx = Some (1, c') \<and> state c' = 0 \<and> previoustime c' = 25 \<and>
     previouspinstate c' = 1 \<and> edge_at late_edge_ctx 1 \<and> poll_time late_edge_ctx 1 = 25"
proof -
  have e: "edge_at late_edge_ctx 1"
    by (simp add: edge_at_def poll_pin_def poll_prev_def late_edge_ctx_def)
  have "polling_at 25 late_edge_ctx 0"
    by (simp add: polling_at_def elapsed_at_def poll_time_def poll_pin_def late_edge_ctx_def)
  then have p: "\<forall>i<1. polling_at 25 late_edge_ctx i" by simp
  have t: "poll_time late_edge_ctx 1 = 25" by (simp add: poll_time_def late_edge_ctx_def)
  from waituntil_edge_effects [of late_edge_ctx 1 25] e p t show ?thesis
    by auto
qed

section \<open>Pattern functions as step lists\<close>

text \<open>
  A pattern function called with \<open>n\<close> runs \<open>play\<close> over \<open>n\<close> copies of its step list.
\<close>

lemma and_then_simps [simp]:
  "and_then None f = None"
  "and_then (Some (True, c)) f = Some (True, c)"
  "and_then (Some (False, c)) f = f c"
  by (simp_all add: and_then_def)

lemma play_append: "play (xs @ ys) c = and_then (play xs c) (play ys)"
proof (induction xs arbitrary: c)
  case Nil
  show ?case by simp
next
  case (Cons x xs)
  obtain l r where x: "x = (l, r)" by (cases x)
  show ?case
  proof (cases "waituntil 25 (setled l r c)")
    case None
    then show ?thesis by (simp add: x)
  next
    case (Some wc)
    obtain w c' where wc: "wc = (w, c')" by (cases wc)
    show ?thesis using Some Cons.IH [of c'] by (simp add: x wc)
  qed
qed

lemma repeats_play:
  assumes "\<And>c. body c = play S c"
  shows "repeats n body c = play (concat (replicate n S)) c"
proof -
  have body: "body = play S" by (rule ext) (rule assms)
  have "repeats n (play S) c = play (concat (replicate n S)) c"
  proof (induction n arbitrary: c)
    case 0
    show ?case by simp
  next
    case (Suc n)
    have "repeats n (play S) = play (concat (replicate n S))"
      using Suc.IH by (intro ext)
    then show ?case by (simp add: play_append)
  qed
  then show ?thesis by (simp add: body)
qed

lemma builtin_patterns_play:
  assumes "(pattern, body) \<in> set builtin_patterns"
  shows "pattern n c = map_option snd (play (concat (replicate (unat n) body)) c)"
proof -
  have 1: "singleledccw n c = map_option snd (play (concat (replicate (unat n) singleledccw_steps)) c)"
    unfolding singleledccw_def singleledccw_steps_def
    by (subst repeats_play [where S = "map (\<lambda>i. (of_nat i, 20)) i20 @ map (\<lambda>i. (20, of_nat (19 - i))) i20"])
       (simp_all add: play_append)
  have 2: "singleledcw n c = map_option snd (play (concat (replicate (unat n) singleledcw_steps)) c)"
    unfolding singleledcw_def singleledcw_steps_def
    by (subst repeats_play [where S = "map (\<lambda>i. (20, of_nat i)) i20 @ map (\<lambda>i. (of_nat (19 - i), 20)) i20"])
       (simp_all add: play_append)
  have 3: "twoledsccw n c = map_option snd (play (concat (replicate (unat n) twoledsccw_steps)) c)"
    unfolding twoledsccw_def twoledsccw_steps_def
    by (subst repeats_play [where S = "map (\<lambda>i. (of_nat i, of_nat (19 - i))) i20"]) simp_all
  have 4: "twoledscw n c = map_option snd (play (concat (replicate (unat n) twoledscw_steps)) c)"
    unfolding twoledscw_def twoledscw_steps_def
    by (subst repeats_play [where S = "map (\<lambda>i. (of_nat (19 - i), of_nat i)) i20"]) simp_all
  have 5: "twoledsflapdown n c = map_option snd (play (concat (replicate (unat n) twoledsflapdown_steps)) c)"
    unfolding twoledsflapdown_def twoledsflapdown_steps_def
    by (subst repeats_play [where S = "map (\<lambda>i. (of_nat i, of_nat i)) i20"]) simp_all
  have 6: "twoledsflapup n c = map_option snd (play (concat (replicate (unat n) twoledsflapup_steps)) c)"
    unfolding twoledsflapup_def twoledsflapup_steps_def
    by (subst repeats_play [where S = "map (\<lambda>i. (of_nat (19 - i), of_nat (19 - i))) i20"]) simp_all
  have 7: "twoledsflap n c = map_option snd (play (concat (replicate (unat n) twoledsflap_steps)) c)"
    unfolding twoledsflap_def twoledsflap_steps_def
    by (subst repeats_play [where S = "map (\<lambda>i. (of_nat i, of_nat i)) i20 @ map (\<lambda>i. (of_nat (19 - i), of_nat (19 - i))) i20"])
       (simp_all add: play_append)
  have 8: "twoledsrandom n c = map_option snd (play (concat (replicate (unat n) twoledsrandom_steps)) c)"
    unfolding twoledsrandom_def twoledsrandom_steps_def
    by (subst repeats_play [where S = "random_pass1 @ random_pass2 @ random_pass3 @ random_pass4"])
       (simp_all add: play_append and_then_def split: option.splits)
  from assms show ?thesis
    unfolding builtin_patterns_def using 1 2 3 4 5 6 7 8 by auto
qed

lemma in_builtin:
  "(singleledccw, singleledccw_steps) \<in> set builtin_patterns"
  "(singleledcw, singleledcw_steps) \<in> set builtin_patterns"
  "(twoledsccw, twoledsccw_steps) \<in> set builtin_patterns"
  "(twoledscw, twoledscw_steps) \<in> set builtin_patterns"
  "(twoledsflapdown, twoledsflapdown_steps) \<in> set builtin_patterns"
  "(twoledsflapup, twoledsflapup_steps) \<in> set builtin_patterns"
  "(twoledsflap, twoledsflap_steps) \<in> set builtin_patterns"
  "(twoledsrandom, twoledsrandom_steps) \<in> set builtin_patterns"
  by (simp_all add: builtin_patterns_def)

lemma steps_lengths:
  "length singleledccw_steps = 40" "length singleledcw_steps = 40"
  "length twoledsccw_steps = 20" "length twoledscw_steps = 20"
  "length twoledsflapdown_steps = 20" "length twoledsflapup_steps = 20"
  "length twoledsflap_steps = 40" "length twoledsrandom_steps = 80"
  by (simp_all add: singleledccw_steps_def singleledcw_steps_def twoledsccw_steps_def
      twoledscw_steps_def twoledsflapdown_steps_def twoledsflapup_steps_def twoledsflap_steps_def
      twoledsrandom_steps_def random_pass1_def random_pass2_def random_pass3_def random_pass4_def
      i20_def)

lemma setled_frame [simp]:
  "state (setled l r c) = state c"
  "previoustime (setled l r c) = previoustime c"
  "previouspinstate (setled l r c) = previouspinstate c"
  "elapsedmillis (setled l r c) = elapsedmillis c"
  "millis_reads (setled l r c) = millis_reads c"
  "PA_in (setled l r c) = PA_in c"
  "PA_reads (setled l r c) = PA_reads c"
  by (simp_all add: setled_def)

lemma setled_polls [simp]:
  "poll_time (setled l r c) = poll_time c"
  "poll_pin (setled l r c) = poll_pin c"
  "poll_prev (setled l r c) = poll_prev c"
  by (simp_all add: fun_eq_iff poll_time_def poll_pin_def poll_prev_def)

lemma play_abort:
  assumes "k < length S" "play (take k S) c = Some (False, ck)"
    "waituntil 25 (setled (fst (S ! k)) (snd (S ! k)) ck) = Some (1, c')"
  shows "play S c = Some (True, c')"
proof -
  have S: "S = take k S @ (fst (S ! k), snd (S ! k)) # drop (Suc k) S"
    using assms(1) by (simp add: id_take_nth_drop)
  have "play S c = and_then (play (take k S) c) (play ((fst (S ! k), snd (S ! k)) # drop (Suc k) S))"
    by (subst S) (rule play_append)
  also have "\<dots> = play ((fst (S ! k), snd (S ! k)) # drop (Suc k) S) ck"
    by (simp only: assms(2) and_then_simps)
  also have "\<dots> = Some (True, c')"
    by (simp only: play.simps assms(3)) simp
  finally show ?thesis .
qed

text \<open>
  Claim C4. For each of the eight pattern functions and every repeat count \<open>n\<close>: when the
  first \<open>k\<close> steps of its \<open>n\<close> repeats have run with every wait timing out, and the wait
  of step \<open>k\<close> is the first to return 1 (SyncDetected), the pattern function returns at
  once. Its result is the context that this wait has left, so that no later step and no
  later repeat is run, and in it \<open>state\<close> is 0.
\<close>

theorem pattern_abort:
  assumes "(pattern, body) \<in> set builtin_patterns"
    and "k < length (concat (replicate (unat n) body))"
    and "play (take k (concat (replicate (unat n) body))) c = Some (False, ck)"
    and "waituntil 25 (setled (fst (concat (replicate (unat n) body) ! k))
                              (snd (concat (replicate (unat n) body) ! k)) ck) = Some (1, c')"
  shows "pattern n c = Some c' \<and> state c' = 0"
proof -
  have "play (concat (replicate (unat n) body)) c = Some (True, c')"
    by (rule play_abort [OF assms(2,3,4)])
  then have "pattern n c = Some c'"
    by (simp add: builtin_patterns_play [OF assms(1)])
  moreover have "state c' = 0" by (rule waituntil_one_state [OF assms(4)])
  ultimately show ?thesis by simp
qed

lemma abort_steps:
  "take 1 (concat (replicate (unat (4 :: u8)) singleledccw_steps)) = [(0, 20)]"
  "concat (replicate (unat (4 :: u8)) singleledccw_steps) ! 1 = (1, 20)"
  "1 < length (concat (replicate (unat (4 :: u8)) singleledccw_steps))"
  by code_simp+

lemma abort_run:
  "\<exists>ck c'. play [(0, 20)] abort_ctx = Some (False, ck) \<and>
      waituntil 25 (setled 1 20 ck) = Some (1, c')"
  by (simp add: waituntil_def millis_def read_pin_def waituntil_loop.simps abort_ctx_def setled_def)

theorem pattern_abort_witness:
  "\<exists>c'. singleledccw 4 abort_ctx = Some c' \<and> state c' = 0"
proof -
  from abort_run obtain ck c' where
    r: "play [(0, 20)] abort_ctx = Some (False, ck)" "waituntil 25 (setled 1 20 ck) = Some (1, c')"
    by blast
  let ?S = "concat (replicate (unat (4 :: u8)) singleledccw_steps)"
  have 1: "play (take 1 ?S) abort_ctx = Some (False, ck)"
    using r(1) by (simp only: abort_steps)
  have 2: "waituntil 25 (setled (fst (?S ! 1)) (snd (?S ! 1)) ck) = Some (1, c')"
    using r(2) by (simp only: abort_steps fst_conv snd_conv)
  from pattern_abort [OF in_builtin(1) abort_steps(3) 1 2] show ?thesis by blast
qed

section \<open>Runs without a sync edge\<close>

text \<open>
  When no rising edge is ever seen and the clock advances, every wait times out, every
  pattern function runs all its steps, and the Timing Baseline moves by 25 ms per step.
\<close>

lemma no_rising_no_edge: "no_rising_edge c \<Longrightarrow> \<not> edge_at c j"
proof
  assume n: "no_rising_edge c" and e: "edge_at c j"
  from e have "pin_history c j = 0" "pin_history c (Suc j) = 1"
    by (auto simp: edge_at_def pin_history_def poll_prev_def split: nat.splits)
  moreover from n have "pin_history c j = 0 \<longrightarrow> pin_history c (Suc j) = 0"
    unfolding no_rising_edge_def by (meson lessI)
  ultimately show False by simp
qed

lemma clock_advances_elapsed:
  assumes "clock_advances c"
  shows "\<exists>k. elapsed_at 25 c k"
proof -
  from assms obtain j where "j \<ge> millis_reads c" "\<not> elapsedmillis c j - previoustime c < 25"
    unfolding clock_advances_def by blast
  then have "elapsed_at 25 c (j - millis_reads c)"
    by (simp add: elapsed_at_def poll_time_def)
  then show ?thesis ..
qed

lemma no_rising_after:
  assumes "no_rising_edge c"
  shows "no_rising_edge ((after_polls c k)\<lparr>previoustime := p\<rparr>)"
proof -
  let ?c' = "(after_polls c k)\<lparr>previoustime := p\<rparr>"
  have h: "pin_history ?c' j = pin_history c (if j = 0 then k else k + j + 1)" for j
    by (cases j; cases k)
       (simp_all add: pin_history_def after_polls_def poll_prev_def poll_pin_def add.assoc)
  have p01: "previouspinstate ?c' = 0 \<or> previouspinstate ?c' = 1"
    using assms poll_pin_01 [of c "k - 1"]
    by (simp add: after_polls_def poll_prev_def no_rising_edge_def)
  have "pin_history ?c' j = 0" if "i < j" "pin_history ?c' i = 0" for i j
  proof -
    from that(1) have "(if i = 0 then k else k + i + 1) < (if j = 0 then k else k + j + 1)"
      by simp
    with assms that(2) show ?thesis
      unfolding h no_rising_edge_def by blast
  qed
  with p01 show ?thesis unfolding no_rising_edge_def by blast
qed

lemma waituntil_quiet:
  assumes "no_rising_edge c" "clock_advances c"
  shows "\<exists>c'. waituntil 25 c = Some (0, c') \<and> previoustime c' = previoustime c + 25 \<and>
     state c' = state c \<and> regs c' = regs c \<and> no_rising_edge c' \<and> clock_advances c'"
proof -
  from clock_advances_elapsed [OF assms(2)] obtain k where "elapsed_at 25 c k" ..
  then have "\<not> polling_at 25 c k" by (simp add: polling_at_def)
  from first_stop [OF this] obtain m where
    m: "\<not> polling_at 25 c m" "\<forall>i<m. polling_at 25 c i" by blast
  have r: "wait_result 25 c m = (0, (after_polls c m)\<lparr>previoustime := previoustime c + 25\<rparr>)"
    using no_rising_no_edge [OF assms(1)] by (simp add: wait_result_def)
  have "clock_advances ((after_polls c m)\<lparr>previoustime := previoustime c + 25\<rparr>)"
    using assms(2) by (simp add: clock_advances_def after_polls_def)
  with waituntil_stop_at [OF m] r no_rising_after [OF assms(1)] show ?thesis
    by (simp add: after_polls_def)
qed

lemma setled_pin_history [simp]: "pin_history (setled l r c) = pin_history c"
  by (simp add: fun_eq_iff pin_history_def split: nat.splits)

lemma setled_quiet [simp]:
  "no_rising_edge (setled l r c) = no_rising_edge c"
  "clock_advances (setled l r c) = clock_advances c"
  by (simp_all add: no_rising_edge_def clock_advances_def)

lemma play_quiet:
  assumes "no_rising_edge c" "clock_advances c"
  shows "\<exists>c'. play S c = Some (False, c') \<and>
     previoustime c' = previoustime c + 25 * of_nat (length S) \<and>
     state c' = state c \<and> no_rising_edge c' \<and> clock_advances c'"
  using assms
proof (induction S arbitrary: c)
  case Nil
  then show ?case by simp
next
  case (Cons x S)
  obtain l r where x: "x = (l, r)" by (cases x)
  from Cons.prems have "no_rising_edge (setled l r c)" "clock_advances (setled l r c)"
    by simp_all
  from waituntil_quiet [OF this] obtain c1 where
    c1: "waituntil 25 (setled l r c) = Some (0, c1)" "previoustime c1 = previoustime c + 25"
      "state c1 = state c" "no_rising_edge c1" "clock_advances c1"
    by auto
  from Cons.IH [OF c1(4,5)] obtain c' where
    c': "play S c1 = Some (False, c')" "previoustime c' = previoustime c1 + 25 * of_nat (length S)"
      "state c' = state c1" "no_rising_edge c'" "clock_advances c'"
    by blast
  have "play (x # S) c = Some (False, c')"
    using c1(1) c'(1) by (simp add: x)
  moreover have "previoustime c' = previoustime c + 25 * of_nat (length (x # S))"
    using c1(2) c'(2) by (simp add: algebra_simps)
  ultimately show ?case using c1(3) c'(3,4,5) by simp
qed

lemma pattern_quiet:
  assumes "(pattern, body) \<in> set builtin_patterns" "no_rising_edge c" "clock_advances c"
  shows "\<exists>c'. pattern n c = Some c' \<and>
     previoustime c' = previoustime c + 25 * of_nat (unat n * length body) \<and>
     state c' = state c \<and> no_rising_edge c' \<and> clock_advances c'"
proof -
  from play_quiet [OF assms(2,3), of "concat (replicate (unat n) body)"] obtain c' where
    c': "play (concat (replicate (unat n) body)) c = Some (False, c')"
      "previoustime c' = previoustime c + 25 * of_nat (length (concat (replicate (unat n) body)))"
      "state c' = state c" "no_rising_edge c'" "clock_advances c'"
    by blast
  have "length (concat (replicate (unat n) body)) = unat n * length body"
    by (induction "unat n") (simp_all add: length_concat sum_list_replicate)
  with c' show ?thesis
    by (simp add: builtin_patterns_play [OF assms(1)])
qed

lemma no_rising_edge_cong:
  assumes "previouspinstate c' = previouspinstate c" "PA_in c' = PA_in c" "PA_reads c' = PA_reads c"
  shows "no_rising_edge c' = no_rising_edge c"
proof -
  have "pin_history c' = pin_history c"
    using assms by (simp add: fun_eq_iff pin_history_def poll_pin_def split: nat.splits)
  then show ?thesis by (simp add: no_rising_edge_def assms(1))
qed

lemma state_update_quiet [simp]:
  "no_rising_edge (c\<lparr>state := s\<rparr>) = no_rising_edge c"
  "clock_advances (c\<lparr>state := s\<rparr>) = clock_advances c"
  by (rule no_rising_edge_cong) (simp_all add: clock_advances_def)

lemma loop_dispatch:
  "state c = 0 \<Longrightarrow> loop c = singleledccw 4 (c\<lparr>state := 1\<rparr>)"
  "state c = 1 \<Longrightarrow> loop c = singleledcw 4 (c\<lparr>state := 2\<rparr>)"
  "state c = 2 \<Longrightarrow> loop c = twoledsccw 8 (c\<lparr>state := 3\<rparr>)"
  "state c = 3 \<Longrightarrow> loop c = twoledscw 8 (c\<lparr>state := 4\<rparr>)"
  "state c = 4 \<Longrightarrow> loop c = twoledsflapdown 8 (c\<lparr>state := 5\<rparr>)"
  "state c = 5 \<Longrightarrow> loop c = twoledsflapup 8 (c\<lparr>state := 6\<rparr>)"
  "state c = 6 \<Longrightarrow> loop c = twoledsflap 4 (c\<lparr>state := 7\<rparr>)"
  "state c = 7 \<Longrightarrow> loop c = twoledsrandom 4 (c\<lparr>state := 8\<rparr>)"
  by (simp_all add: loop_def Let_def)

lemma loop_dispatch_pulse:
  "state c = 8 \<Longrightarrow> loop c = map_option (\<lambda>c. c\<lparr>state := 0\<rparr>) (syncpulse 25 (c\<lparr>state := 9\<rparr>))"
  by (cases "syncpulse 25 (c\<lparr>state := 9\<rparr>)") (simp_all add: loop_def Let_def)

lemma loop_dispatch_all:
  "loop c =
    (if state c = 0 then singleledccw 4 (c\<lparr>state := 1\<rparr>)
     else if state c = 1 then singleledcw 4 (c\<lparr>state := 2\<rparr>)
     else if state c = 2 then twoledsccw 8 (c\<lparr>state := 3\<rparr>)
     else if state c = 3 then twoledscw 8 (c\<lparr>state := 4\<rparr>)
     else if state c = 4 then twoledsflapdown 8 (c\<lparr>state := 5\<rparr>)
     else if state c = 5 then twoledsflapup 8 (c\<lparr>state := 6\<rparr>)
     else if state c = 6 then twoledsflap 4 (c\<lparr>state := 7\<rparr>)
     else if state c = 7 then twoledsrandom 4 (c\<lparr>state := 8\<rparr>)
     else map_option (\<lambda>c'. c'\<lparr>state := 0\<rparr>) (syncpulse 25 (c\<lparr>state := state c + 1\<rparr>)))"
proof -
  have inj: "state c + 1 = of_nat (Suc j) \<longleftrightarrow> state c = of_nat j" for j
    by (simp add: algebra_simps)
  have d: "state c + 1 = 1 \<longleftrightarrow> state c = 0" "state c + 1 = 2 \<longleftrightarrow> state c = 1"
    "state c + 1 = 3 \<longleftrightarrow> state c = 2" "state c + 1 = 4 \<longleftrightarrow> state c = 3"
    "state c + 1 = 5 \<longleftrightarrow> state c = 4" "state c + 1 = 6 \<longleftrightarrow> state c = 5"
    "state c + 1 = 7 \<longleftrightarrow> state c = 6" "state c + 1 = 8 \<longleftrightarrow> state c = 7"
    using inj [of 0] inj [of 1] inj [of 2] inj [of 3] inj [of 4] inj [of 5] inj [of 6] inj [of 7]
    by simp_all
  show ?thesis
    by (cases "syncpulse 25 (c\<lparr>state := state c + 1\<rparr>)") (simp_all add: loop_def Let_def d)
qed

lemma tick_quiet:
  assumes "(pattern, body) \<in> set builtin_patterns" "loop c = pattern n (c\<lparr>state := s\<rparr>)"
    "no_rising_edge c" "clock_advances c"
  shows "\<exists>c'. loop c = Some c' \<and> pattern n (c\<lparr>state := s\<rparr>) = Some c' \<and> state c' = s \<and>
     previoustime c' = previoustime c + 25 * of_nat (unat n * length body) \<and>
     no_rising_edge c' \<and> clock_advances c'"
proof -
  have "no_rising_edge (c\<lparr>state := s\<rparr>)" "clock_advances (c\<lparr>state := s\<rparr>)"
    using assms(3,4) by simp_all
  from pattern_quiet [OF assms(1) this, of n] show ?thesis
    using assms(2) by auto
qed

lemma pulse_ends:
  assumes "clock_advances c"
  shows "\<exists>k. \<not> pulse_on_at 25 c k"
proof -
  from assms obtain j where "j \<ge> millis_reads c" "\<not> elapsedmillis c j - poll_time c 0 < 25"
    unfolding clock_advances_def by blast
  then have "\<not> pulse_on_at 25 c (j - millis_reads c)"
    by (simp add: pulse_on_at_def poll_time_def)
  then show ?thesis ..
qed

lemma pulse_result_quiet:
  "no_rising_edge (pulse_result c k) = no_rising_edge c"
  "clock_advances (pulse_result c k) = clock_advances c"
  by (rule no_rising_edge_cong) (simp_all add: clock_advances_def pulse_result_def)

lemma pulse_tick_quiet:
  assumes "state c = 8" "no_rising_edge c" "clock_advances c"
  shows "\<exists>c' k. loop c = Some c' \<and>
     map_option (\<lambda>c. c\<lparr>state := 0\<rparr>) (syncpulse 25 (c\<lparr>state := 9\<rparr>)) = Some c' \<and> state c' = 0 \<and>
     previoustime c' = poll_time c 0 \<and> millis_reads c' = millis_reads c + Suc k \<and>
     (\<forall>i<k. poll_time c i - poll_time c 0 < 25) \<and> \<not> poll_time c k - poll_time c 0 < 25 \<and>
     no_rising_edge c' \<and> clock_advances c'"
proof -
  let ?c = "c\<lparr>state := 9\<rparr>"
  have q: "no_rising_edge ?c" "clock_advances ?c" using assms(2,3) by simp_all
  from pulse_ends [OF q(2)] obtain k0 where "\<not> pulse_on_at 25 ?c k0" ..
  from first_pulse_stop [OF this] obtain k where
    k: "\<not> pulse_on_at 25 ?c k" "\<forall>i<k. pulse_on_at 25 ?c i" by blast
  have s: "syncpulse 25 ?c = Some (pulse_result ?c k)"
    by (rule syncpulse_stop_at [OF k])
  let ?c' = "(pulse_result ?c k)\<lparr>state := 0\<rparr>"
  have pt: "poll_time ?c = poll_time c" by (simp add: fun_eq_iff poll_time_def)
  have "loop c = Some ?c'" using s by (simp add: loop_dispatch_pulse [OF assms(1)])
  moreover have "map_option (\<lambda>c. c\<lparr>state := 0\<rparr>) (syncpulse 25 ?c) = Some ?c'" using s by simp
  moreover have "previoustime ?c' = poll_time c 0" "millis_reads ?c' = millis_reads c + Suc k"
    by (simp_all add: pulse_result_def poll_time_def)
  moreover have "\<forall>i<k. poll_time c i - poll_time c 0 < 25" "\<not> poll_time c k - poll_time c 0 < 25"
    using k by (simp_all add: pulse_on_at_def pt)
  moreover have "no_rising_edge ?c'" "clock_advances ?c'"
    using q by (simp_all add: pulse_result_quiet)
  ultimately show ?thesis by (intro exI [of _ ?c'] exI [of _ k]) simp
qed

lemma pulse_tick_effects:
  assumes "state c = 8" "\<forall>i<k. poll_time c i - poll_time c 0 < 25"
    "\<not> poll_time c k - poll_time c 0 < 25"
  shows "loop c = Some (c\<lparr>regs := (regs c)\<lparr>TM2C := 0, TM2CT := 0, TM2B := 211, TM2S := 0, PA := 0\<rparr>,
     previoustime := poll_time c 0, millis_reads := millis_reads c + Suc k, state := 0\<rparr>)"
proof -
  let ?c = "c\<lparr>state := 9\<rparr>"
  have pt: "poll_time ?c = poll_time c" by (simp add: fun_eq_iff poll_time_def)
  have k: "\<not> pulse_on_at 25 ?c k" "\<forall>i<k. pulse_on_at 25 ?c i"
    using assms(2,3) by (simp_all add: pulse_on_at_def pt)
  have s: "syncpulse 25 ?c = Some (pulse_result ?c k)"
    by (rule syncpulse_stop_at [OF k])
  have "(pulse_result ?c k)\<lparr>state := 0\<rparr> =
    c\<lparr>regs := (regs c)\<lparr>TM2C := 0, TM2CT := 0, TM2B := 211, TM2S := 0, PA := 0\<rparr>,
     previoustime := poll_time c 0, millis_reads := millis_reads c + Suc k, state := 0\<rparr>"
    by (rule ctx.equality) (simp_all add: pulse_result_def poll_time_def)
  with s show ?thesis by (simp add: loop_dispatch_pulse [OF assms(1)])
qed

lemma add25:
  fixes d :: u32
  assumes "d < 25"
  shows "\<not> (d + 25 < 25)"
proof -
  from assms have d: "unat d < 25" by (simp add: word_less_nat_alt)
  then have "unat d + unat (25 :: u32) < 2 ^ LENGTH(32)" by simp
  then have "unat (d + 25) = unat d + unat (25 :: u32)" by (simp only: unat_add_lem)
  then show ?thesis by (simp add: word_less_nat_alt)
qed

lemma of_nat_clock:
  fixes p :: u32
  shows "\<exists>j\<ge>i. \<not> (of_nat j - p < 25)"
proof (cases "(of_nat i :: u32) - p < 25")
  case False
  then show ?thesis by blast
next
  case True
  have e: "(of_nat (i + 25) :: u32) - p = (of_nat i - p) + 25" by simp
  have "\<not> ((of_nat (i + 25) :: u32) - p < 25)"
    unfolding e by (rule add25 [OF True])
  moreover have "i \<le> i + 25" by simp
  ultimately show ?thesis by blast
qed

lemma idle_quiet: "no_rising_edge idle_ctx" "clock_advances idle_ctx"
proof -
  have "pin_history idle_ctx j = 1" for j
    by (cases j) (simp_all add: pin_history_def poll_pin_def idle_ctx_def)
  then show "no_rising_edge idle_ctx"
    by (simp add: no_rising_edge_def idle_ctx_def)
  show "clock_advances idle_ctx"
    unfolding clock_advances_def using of_nat_clock by (simp add: idle_ctx_def)
qed

text \<open>
  Claim C3. In every context, a call of \<open>loop\<close> made with \<open>state\<close> equal to 0, 1, ..., 7 is
  the call \<open>singleledccw(4)\<close>, \<open>singleledcw(4)\<close>, \<open>twoledsccw(8)\<close>, \<open>twoledscw(8)\<close>,
  \<open>twoledsflapdown(8)\<close>, \<open>twoledsflapup(8)\<close>, \<open>twoledsflap(4)\<close>, \<open>twoledsrandom(4)\<close>
  respectively, made with \<open>state\<close> incremented; with any other \<open>state\<close> it is \<open>syncpulse(25)\<close>
  followed by \<open>state = 0\<close>. Starting from \<open>state = 0\<close>, with no sync edge and a clock that
  advances, ten consecutive calls of \<open>loop\<close> return. The first eight run the eight patterns
  in this order, with \<open>state\<close> equal to 1, 2, ..., 8, and each moves the Timing Baseline by
  25 ms for every step of its repeats. The ninth sends the sync pulse: timer 2 is loaded
  with 211 and stopped again at the end, port A is cleared, the Timing Baseline is set to the
  first clock reading of the pulse, the clock is read until the first reading that is at
  least 25 ms later, and \<open>state\<close> is 0. The tenth is \<open>singleledccw(4)\<close> again, with \<open>state\<close>
  equal to 1.
\<close>

theorem scheduler_round_trip:
  assumes "state c0 = 0" "no_rising_edge c0" "clock_advances c0"
  shows "(\<forall>c. loop c =
      (if state c = 0 then singleledccw 4 (c\<lparr>state := 1\<rparr>)
       else if state c = 1 then singleledcw 4 (c\<lparr>state := 2\<rparr>)
       else if state c = 2 then twoledsccw 8 (c\<lparr>state := 3\<rparr>)
       else if state c = 3 then twoledscw 8 (c\<lparr>state := 4\<rparr>)
       else if state c = 4 then twoledsflapdown 8 (c\<lparr>state := 5\<rparr>)
       else if state c = 5 then twoledsflapup 8 (c\<lparr>state := 6\<rparr>)
       else if state c = 6 then twoledsflap 4 (c\<lparr>state := 7\<rparr>)
       else if state c = 7 then twoledsrandom 4 (c\<lparr>state := 8\<rparr>)
       else map_option (\<lambda>c'. c'\<lparr>state := 0\<rparr>) (syncpulse 25 (c\<lparr>state := state c + 1\<rparr>)))) \<and>
    (\<exists>c1 c2 c3 c4 c5 c6 c7 c8 c9 c10 k.
    loop c0 = Some c1 \<and> singleledccw 4 (c0\<lparr>state := 1\<rparr>) = Some c1 \<and> state c1 = 1 \<and>
      previoustime c1 = previoustime c0 + 25 * (4 * 40) \<and>
    loop c1 = Some c2 \<and> singleledcw 4 (c1\<lparr>state := 2\<rparr>) = Some c2 \<and> state c2 = 2 \<and>
      previoustime c2 = previoustime c1 + 25 * (4 * 40) \<and>
    loop c2 = Some c3 \<and> twoledsccw 8 (c2\<lparr>state := 3\<rparr>) = Some c3 \<and> state c3 = 3 \<and>
      previoustime c3 = previoustime c2 + 25 * (8 * 20) \<and>
    loop c3 = Some c4 \<and> twoledscw 8 (c3\<lparr>state := 4\<rparr>) = Some c4 \<and> state c4 = 4 \<and>
      previoustime c4 = previoustime c3 + 25 * (8 * 20) \<and>
    loop c4 = Some c5 \<and> twoledsflapdown 8 (c4\<lparr>state := 5\<rparr>) = Some c5 \<and> state c5 = 5 \<and>
      previoustime c5 = previoustime c4 + 25 * (8 * 20) \<and>
    loop c5 = Some c6 \<and> twoledsflapup 8 (c5\<lparr>state := 6\<rparr>) = Some c6 \<and> state c6 = 6 \<and>
      previoustime c6 = previoustime c5 + 25 * (8 * 20) \<and>
    loop c6 = Some c7 \<and> twoledsflap 4 (c6\<lparr>state := 7\<rparr>) = Some c7 \<and> state c7 = 7 \<and>
      previoustime c7 = previoustime c6 + 25 * (4 * 40) \<and>
    loop c7 = Some c8 \<and> twoledsrandom 4 (c7\<lparr>state := 8\<rparr>) = Some c8 \<and> state c8 = 8 \<and>
      previoustime c8 = previoustime c7 + 25 * (4 * 80) \<and>
    loop c8 = Some c9 \<and>
      map_option (\<lambda>c. c\<lparr>state := 0\<rparr>) (syncpulse 25 (c8\<lparr>state := 9\<rparr>)) = Some c9 \<and>
      (\<forall>i<k. poll_time c8 i - poll_time c8 0 < 25) \<and> \<not> poll_time c8 k - poll_time c8 0 < 25 \<and>
      c9 = c8\<lparr>regs := (regs c8)\<lparr>TM2C := 0, TM2CT := 0, TM2B := 211, TM2S := 0, PA := 0\<rparr>,
              previoustime := poll_time c8 0, millis_reads := millis_reads c8 + Suc k,
              state := 0\<rparr> \<and>
    loop c9 = Some c10 \<and> singleledccw 4 (c9\<lparr>state := 1\<rparr>) = Some c10 \<and> state c10 = 1 \<and>
      previoustime c10 = previoustime c9 + 25 * (4 * 40))"
proof (rule conjI)
  show "\<forall>c. loop c =
      (if state c = 0 then singleledccw 4 (c\<lparr>state := 1\<rparr>)
       else if state c = 1 then singleledcw 4 (c\<lparr>state := 2\<rparr>)
       else if state c = 2 then twoledsccw 8 (c\<lparr>state := 3\<rparr>)
       else if state c = 3 then twoledscw 8 (c\<lparr>state := 4\<rparr>)
       else if state c = 4 then twoledsflapdown 8 (c\<lparr>state := 5\<rparr>)
       else if state c = 5 then twoledsflapup 8 (c\<lparr>state := 6\<rparr>)
       else if state c = 6 then twoledsflap 4 (c\<lparr>state := 7\<rparr>)
       else if state c = 7 then twoledsrandom 4 (c\<lparr>state := 8\<rparr>)
       else map_option (\<lambda>c'. c'\<lparr>state := 0\<rparr>) (syncpulse 25 (c\<lparr>state := state c + 1\<rparr>)))"
    by (intro allI) (rule loop_dispatch_all)
next
  have n: "25 * of_nat (unat (4 :: u8) * 40) = (25 * (4 * 40) :: u32)"
    "25 * of_nat (unat (8 :: u8) * 20) = (25 * (8 * 20) :: u32)"
    "25 * of_nat (unat (4 :: u8) * 80) = (25 * (4 * 80) :: u32)"
    by simp_all
  from tick_quiet [OF in_builtin(1) loop_dispatch(1) [OF assms(1)] assms(2,3)] obtain c1 where
    c1: "loop c0 = Some c1" "singleledccw 4 (c0\<lparr>state := 1\<rparr>) = Some c1" "state c1 = 1"
      "previoustime c1 = previoustime c0 + 25 * (4 * 40)"
      "no_rising_edge c1" "clock_advances c1"
    unfolding steps_lengths n by (elim exE conjE)
  from tick_quiet [OF in_builtin(2) loop_dispatch(2) [OF c1(3)] c1(5,6)] obtain c2 where
    c2: "loop c1 = Some c2" "singleledcw 4 (c1\<lparr>state := 2\<rparr>) = Some c2" "state c2 = 2"
      "previoustime c2 = previoustime c1 + 25 * (4 * 40)"
      "no_rising_edge c2" "clock_advances c2"
    unfolding steps_lengths n by (elim exE conjE)
  from tick_quiet [OF in_builtin(3) loop_dispatch(3) [OF c2(3)] c2(5,6)] obtain c3 where
    c3: "loop c2 = Some c3" "twoledsccw 8 (c2\<lparr>state := 3\<rparr>) = Some c3" "state c3 = 3"
      "previoustime c3 = previoustime c2 + 25 * (8 * 20)"
      "no_rising_edge c3" "clock_advances c3"
    unfolding steps_lengths n by (elim exE conjE)
  from tick_quiet [OF in_builtin(4) loop_dispatch(4) [OF c3(3)] c3(5,6)] obtain c4 where
    c4: "loop c3 = Some c4" "twoledscw 8 (c3\<lparr>state := 4\<rparr>) = Some c4" "state c4 = 4"
      "previoustime c4 = previoustime c3 + 25 * (8 * 20)"
      "no_rising_edge c4" "clock_advances c4"
    unfolding steps_lengths n by (elim exE conjE)
  from tick_quiet [OF in_builtin(5) loop_dispatch(5) [OF c4(3)] c4(5,6)] obtain c5 where
    c5: "loop c4 = Some c5" "twoledsflapdown 8 (c4\<lparr>state := 5\<rparr>) = Some c5" "state c5 = 5"
      "previoustime c5 = previoustime c4 + 25 * (8 * 20)"
      "no_rising_edge c5" "clock_advances c5"
    unfolding steps_lengths n by (elim exE conjE)
  from tick_quiet [OF in_builtin(6) loop_dispatch(6) [OF c5(3)] c5(5,6)] obtain c6 where
    c6: "loop c5 = Some c6" "twoledsflapup 8 (c5\<lparr>state := 6\<rparr>) = Some c6" "state c6 = 6"
      "previoustime c6 = previoustime c5 + 25 * (8 * 20)"
      "no_rising_edge c6" "clock_advances c6"
    unfolding steps_lengths n by (elim exE conjE)
  from tick_quiet [OF in_builtin(7) loop_dispatch(7) [OF c6(3)] c6(5,6)] obtain c7 where
    c7: "loop c6 = Some c7" "twoledsflap 4 (c6\<lparr>state := 7\<rparr>) = Some c7" "state c7 = 7"
      "previoustime c7 = previoustime c6 + 25 * (4 * 40)"
      "no_rising_edge c7" "clock_advances c7"
    unfolding steps_lengths n by (elim exE conjE)
  from tick_quiet [OF in_builtin(8) loop_dispatch(8) [OF c7(3)] c7(5,6)] obtain c8 where
    c8: "loop c7 = Some c8" "twoledsrandom 4 (c7\<lparr>state := 8\<rparr>) = Some c8" "state c8 = 8"
      "previoustime c8 = previoustime c7 + 25 * (4 * 80)"
      "no_rising_edge c8" "clock_advances c8"
    unfolding steps_lengths n by (elim exE conjE)
  from pulse_tick_quiet [OF c8(3,5,6)] obtain c9 k where
    c9: "loop c8 = Some c9"
      "map_option (\<lambda>c. c\<lparr>state := 0\<rparr>) (syncpulse 25 (c8\<lparr>state := 9\<rparr>)) = Some c9"
      "\<forall>i<k. poll_time c8 i - poll_time c8 0 < 25" "\<not> poll_time c8 k - poll_time c8 0 < 25"
      "state c9 = 0" "no_rising_edge c9" "clock_advances c9" by (elim exE conjE)
  from pulse_tick_effects [OF c8(3) c9(3,4)] c9(1)
  have e9: "c9 = c8\<lparr>regs := (regs c8)\<lparr>TM2C := 0, TM2CT := 0, TM2B := 211, TM2S := 0, PA := 0\<rparr>,
              previoustime := poll_time c8 0, millis_reads := millis_reads c8 + Suc k,
              state := 0\<rparr>" by simp
  from tick_quiet [OF in_builtin(1) loop_dispatch(1) [OF c9(5)] c9(6,7)] obtain c10 where
    c10: "loop c9 = Some c10" "singleledccw 4 (c9\<lparr>state := 1\<rparr>) = Some c10" "state c10 = 1"
      "previoustime c10 = previoustime c9 + 25 * (4 * 40)"
    unfolding steps_lengths n by (elim exE conjE)
  show "\<exists>c1 c2 c3 c4 c5 c6 c7 c8 c9 c10 k.
    loop c0 = Some c1 \<and> singleledccw 4 (c0\<lparr>state := 1\<rparr>) = Some c1 \<and> state c1 = 1 \<and>
      previoustime c1 = previoustime c0 + 25 * (4 * 40) \<and>
    loop c1 = Some c2 \<and> singleledcw 4 (c1\<lparr>state := 2\<rparr>) = Some c2 \<and> state c2 = 2 \<and>
      previoustime c2 = previoustime c1 + 25 * (4 * 40) \<and>
    loop c2 = Some c3 \<and> twoledsccw 8 (c2\<lparr>state := 3\<rparr>) = Some c3 \<and> state c3 = 3 \<and>
      previoustime c3 = previoustime c2 + 25 * (8 * 20) \<and>
    loop c3 = Some c4 \<and> twoledscw 8 (c3\<lparr>state := 4\<rparr>) = Some c4 \<and> state c4 = 4 \<and>
      previoustime c4 = previoustime c3 + 25 * (8 * 20) \<and>
    loop c4 = Some c5 \<and> twoledsflapdown 8 (c4\<lparr>state := 5\<rparr>) = Some c5 \<and> state c5 = 5 \<and>
      previoustime c5 = previoustime c4 + 25 * (8 * 20) \<and>
    loop c5 = Some c6 \<and> twoledsflapup 8 (c5\<lparr>state := 6\<rparr>) = Some c6 \<and> state c6 = 6 \<and>
      previoustime c6 = previoustime c5 + 25 * (8 * 20) \<and>
    loop c6 = Some c7 \<and> twoledsflap 4 (c6\<lparr>state := 7\<rparr>) = Some c7 \<and> state c7 = 7 \<and>
      previoustime c7 = previoustime c6 + 25 * (4 * 40) \<and>
    loop c7 = Some c8 \<and> twoledsrandom 4 (c7\<lparr>state := 8\<rparr>) = Some c8 \<and> state c8 = 8 \<and>
      previoustime c8 = previoustime c7 + 25 * (4 * 80) \<and>
    loop c8 = Some c9 \<and>
      map_option (\<lambda>c. c\<lparr>state := 0\<rparr>) (syncpulse 25 (c8\<lparr>state := 9\<rparr>)) = Some c9 \<and>
      (\<forall>i<k. poll_time c8 i - poll_time c8 0 < 25) \<and> \<not> poll_time c8 k - poll_time c8 0 < 25 \<and>
      c9 = c8\<lparr>regs := (regs c8)\<lparr>TM2C := 0, TM2CT := 0, TM2B := 211, TM2S := 0, PA := 0\<rparr>,
              previoustime := poll_time c8 0, millis_reads := millis_reads c8 + Suc k,
              state := 0\<rparr> \<and>
    loop c9 = Some c10 \<and> singleledccw 4 (c9\<lparr>state := 1\<rparr>) = Some c10 \<and> state c10 = 1 \<and>
      previoustime c10 = previoustime c9 + 25 * (4 * 40)"
    by (rule exI [of _ c1], rule exI [of _ c2], rule exI [of _ c3], rule exI [of _ c4],
        rule exI [of _ c5], rule exI [of _ c6], rule exI [of _ c7], rule exI [of _ c8],
        rule exI [of _ c9], rule exI [of _ c10], rule exI [of _ k], intro conjI)
      (fact c1 c2 c3 c4 c5 c6 c7 c8 c9 c10 e9)+
qed

theorem scheduler_round_trip_witness:
  "loop (idle_ctx\<lparr>state := 5\<rparr>) = twoledsflapup 8 (idle_ctx\<lparr>state := 6\<rparr>) \<and>
   (\<exists>c9 c10. ticks 9 idle_ctx = Some c9 \<and> state c9 = 0 \<and> TM2B (regs c9) = 211 \<and>
      ticks 10 idle_ctx = Some c10 \<and> state c10 = 1)"
proof -
  have s: "state idle_ctx = 0" by (simp add: idle_ctx_def)
  note r = scheduler_round_trip [OF s idle_quiet]
  from r have "loop (idle_ctx\<lparr>state := 5\<rparr>) =
      (if state (idle_ctx\<lparr>state := 5\<rparr>) = 0 then singleledccw 4 (idle_ctx\<lparr>state := 5\<rparr>\<lparr>state := 1\<rparr>)
       else if state (idle_ctx\<lparr>state := 5\<rparr>) = 1 then singleledcw 4 (idle_ctx\<lparr>state := 5\<rparr>\<lparr>state := 2\<rparr>)
       else if state (idle_ctx\<lparr>state := 5\<rparr>) = 2 then twoledsccw 8 (idle_ctx\<lparr>state := 5\<rparr>\<lparr>state := 3\<rparr>)
       else if state (idle_ctx\<lparr>state := 5\<rparr>) = 3 then twoledscw 8 (idle_ctx\<lparr>state := 5\<rparr>\<lparr>state := 4\<rparr>)
       else if state (idle_ctx\<lparr>state := 5\<rparr>) = 4 then twoledsflapdown 8 (idle_ctx\<lparr>state := 5\<rparr>\<lparr>state := 5\<rparr>)
       else if state (idle_ctx\<lparr>state := 5\<rparr>) = 5 then twoledsflapup 8 (idle_ctx\<lparr>state := 5\<rparr>\<lparr>state := 6\<rparr>)
       else if state (idle_ctx\<lparr>state := 5\<rparr>) = 6 then twoledsflap 4 (idle_ctx\<lparr>state := 5\<rparr>\<lparr>state := 7\<rparr>)
       else if state (idle_ctx\<lparr>state := 5\<rparr>) = 7 then twoledsrandom 4 (idle_ctx\<lparr>state := 5\<rparr>\<lparr>state := 8\<rparr>)
       else map_option (\<lambda>c'. c'\<lparr>state := 0\<rparr>)
              (syncpulse 25 (idle_ctx\<lparr>state := 5\<rparr>\<lparr>state := state (idle_ctx\<lparr>state := 5\<rparr>) + 1\<rparr>)))"
    by blast
  then have d: "loop (idle_ctx\<lparr>state := 5\<rparr>) = twoledsflapup 8 (idle_ctx\<lparr>state := 6\<rparr>)" by simp
  from r obtain c1 c2 c3 c4 c5 c6 c7 c8 c9 c10 k where
    l: "loop idle_ctx = Some c1" "loop c1 = Some c2" "loop c2 = Some c3" "loop c3 = Some c4"
    "loop c4 = Some c5" "loop c5 = Some c6" "loop c6 = Some c7" "loop c7 = Some c8"
    "loop c8 = Some c9" "loop c9 = Some c10" and s10: "state c10 = 1"
    and e9: "c9 = c8\<lparr>regs := (regs c8)\<lparr>TM2C := 0, TM2CT := 0, TM2B := 211, TM2S := 0, PA := 0\<rparr>,
              previoustime := poll_time c8 0, millis_reads := millis_reads c8 + Suc k,
              state := 0\<rparr>"
    by (elim exE conjE)
  from l have t9: "ticks 9 idle_ctx = Some c9" by (simp add: eval_nat_numeral)
  from l have t10: "ticks 10 idle_ctx = Some c10" by (simp add: eval_nat_numeral)
  from e9 have "state c9 = 0" "TM2B (regs c9) = 211" by simp_all
  with d t9 t10 s10 show ?thesis by blast
qed

section \<open>The Timing Baseline\<close>

text \<open>
  \<open>setup\<close> sets the Timing Baseline to the first clock reading, so after it the readings
  to come are ahead of the Timing Baseline as soon as the clock itself is monotonic.
\<close>

lemma scast_nonneg_bound:
  fixes time :: s16
  assumes "0 \<le> sint time"
  shows "unat (scast time :: u32) < 2 ^ 15"
proof -
  have "sint time < 2 ^ (LENGTH(16) - 1)" by (rule sint_lt)
  then have lt: "sint time < 32768" by simp
  have "(scast time :: u32) = word_of_int (sint time)" by (rule scast_eq)
  then have "uint (scast time :: u32) = sint time mod 2 ^ LENGTH(32)"
    by (simp only: uint_word_of_int)
  also have "\<dots> = sint time"
  proof (rule mod_pos_pos_trivial)
    show "0 \<le> sint time" by (rule assms)
    show "sint time < 2 ^ LENGTH(32)" using lt by simp
  qed
  finally have "unat (scast time :: u32) = nat (sint time)" by (simp only: unat_eq_nat_uint)
  with assms lt show ?thesis by simp
qed

lemma key_sub:
  fixes t p b :: u32
  assumes "unat b \<le> unat (t - p)"
  shows "unat (t - (p + b)) = unat (t - p) - unat b"
proof -
  have e: "t - (p + b) = (t - p) - b" by simp
  have "b \<le> t - p" using assms by (simp add: word_le_nat_alt)
  then show ?thesis unfolding e by (rule unat_sub)
qed

lemma clock_monotonicD:
  assumes "clock_monotonic N c" "i \<le> j" "millis_reads c + j < N"
  shows "unat (poll_time c i - previoustime c) \<le> unat (poll_time c j - previoustime c)"
    and "unat (poll_time c j - previoustime c) < 2 ^ 31"
  using assms unfolding clock_monotonic_def by blast+

lemma clock_monotonic_rebase:
  assumes mono: "clock_monotonic N c"
    and reads: "millis_reads c' = millis_reads c + Suc k"
    and time': "\<And>j. poll_time c' j = poll_time c (Suc k + j)"
    and base: "previoustime c' = previoustime c + b"
    and le: "unat b \<le> unat (poll_time c k - previoustime c)"
  shows "clock_monotonic N c'"
  unfolding clock_monotonic_def
proof (intro allI impI)
  fix i j :: nat
  assume ij: "i \<le> j" and jN: "millis_reads c' + j < N"
  let ?d = "\<lambda>n. unat (poll_time c n - previoustime c)"
  from jN have jN': "millis_reads c + (Suc k + j) < N" by (simp add: reads)
  from ij jN' have iN': "millis_reads c + (Suc k + i) < N" by simp
  have ki: "?d k \<le> ?d (Suc k + i)"
    by (rule clock_monotonicD(1) [OF mono _ iN']) simp
  have kj: "?d k \<le> ?d (Suc k + j)"
    by (rule clock_monotonicD(1) [OF mono _ jN']) simp
  have di: "unat (poll_time c' i - previoustime c') = ?d (Suc k + i) - unat b"
    unfolding time' base using le ki by (intro key_sub) simp
  have dj: "unat (poll_time c' j - previoustime c') = ?d (Suc k + j) - unat b"
    unfolding time' base using le kj by (intro key_sub) simp
  have "Suc k + i \<le> Suc k + j" using ij by simp
  then have "?d (Suc k + i) \<le> ?d (Suc k + j) \<and> ?d (Suc k + j) < 2 ^ 31"
    using clock_monotonicD [OF mono _ jN'] by blast
  then show "unat (poll_time c' i - previoustime c') \<le> unat (poll_time c' j - previoustime c') \<and>
     unat (poll_time c' j - previoustime c') < 2 ^ 31"
    unfolding di dj by arith
qed

lemma setup_monotonic:
  assumes "\<forall>i j. i \<le> j \<longrightarrow> millis_reads c + j < N \<longrightarrow>
     unat (poll_time c i - poll_time c 0) \<le> unat (poll_time c j - poll_time c 0) \<and>
     unat (poll_time c j - poll_time c 0) < 2 ^ 31"
  shows "clock_monotonic N (setup_badge c)" "previouspinstate (setup_badge c) = 1"
proof -
  have t: "poll_time (setup_badge c) j = poll_time c (Suc j)" for j
    by (simp add: setup_badge_def millis_def poll_time_def)
  have p: "previoustime (setup_badge c) = poll_time c 0"
    by (simp add: setup_badge_def millis_def poll_time_def)
  have r: "millis_reads (setup_badge c) = Suc (millis_reads c)"
    by (simp add: setup_badge_def millis_def)
  show "clock_monotonic N (setup_badge c)"
    unfolding clock_monotonic_def t p r
  proof (intro allI impI)
    fix i j :: nat
    assume "i \<le> j" "Suc (millis_reads c) + j < N"
    then have "Suc i \<le> Suc j" "millis_reads c + Suc j < N" by simp_all
    with assms show "unat (poll_time c (Suc i) - poll_time c 0)
        \<le> unat (poll_time c (Suc j) - poll_time c 0) \<and>
      unat (poll_time c (Suc j) - poll_time c 0) < 2 ^ 31"
      by blast
  qed
  show "previouspinstate (setup_badge c) = 1"
    by (simp add: setup_badge_def millis_def)
qed

lemma waituntil_monotonic:
  assumes mono: "clock_monotonic N c"
    and p01: "previouspinstate c = 0 \<or> previouspinstate c = 1"
    and time: "0 \<le> sint time"
    and w: "waituntil time c = Some (r, c')"
  shows "(millis_reads c' \<le> N \<longrightarrow> moved_forward (previoustime c) (previoustime c')) \<and>
     clock_monotonic N c' \<and> (previouspinstate c' = 0 \<or> previouspinstate c' = 1)"
proof -
  from waituntil_Some [OF w] obtain k where
    k: "\<not> polling_at time c k" "\<forall>i<k. polling_at time c i" "(r, c') = wait_result time c k"
    by blast
  let ?d = "\<lambda>n. unat (poll_time c n - previoustime c)"
  show ?thesis
  proof (cases "edge_at c k")
    case True
    with k(3) have c': "c' = (after_polls c k)\<lparr>state := 0, previoustime := poll_time c k,
        previouspinstate := 1\<rparr>"
      by (simp add: wait_result_def)
    have base: "previoustime c' = previoustime c + (poll_time c k - previoustime c)"
      by (simp add: c')
    have reads: "millis_reads c' = millis_reads c + Suc k"
      by (simp add: c' after_polls_def)
    have time': "poll_time c' j = poll_time c (Suc k + j)" for j
      by (simp add: c' poll_time_def after_polls_def add.assoc)
    have "clock_monotonic N c'"
      by (rule clock_monotonic_rebase [OF mono reads time' base]) simp
    moreover have "moved_forward (previoustime c) (previoustime c')" if "millis_reads c' \<le> N"
    proof -
      from that have "millis_reads c + k < N" by (simp add: reads)
      then have "?d k < 2 ^ 31" by (rule clock_monotonicD(2) [OF mono order_refl])
      then show ?thesis by (simp add: moved_forward_def c')
    qed
    ultimately show ?thesis by (simp add: c')
  next
    case False
    with k(3) have c': "c' = (after_polls c k)\<lparr>previoustime := previoustime c + scast time\<rparr>"
      by (simp add: wait_result_def)
    from stop_cases [OF p01 k(1)] False have "elapsed_at time c k" by simp
    then have "scast time \<le> poll_time c k - previoustime c"
      by (simp add: elapsed_at_def not_less)
    then have le: "unat (scast time :: u32) \<le> ?d k" by (simp add: word_le_nat_alt)
    have base: "previoustime c' = previoustime c + scast time" by (simp add: c')
    have reads: "millis_reads c' = millis_reads c + Suc k"
      by (simp add: c' after_polls_def)
    have time': "poll_time c' j = poll_time c (Suc k + j)" for j
      by (simp add: c' poll_time_def after_polls_def add.assoc)
    have "clock_monotonic N c'"
      by (rule clock_monotonic_rebase [OF mono reads time' base le])
    moreover have "moved_forward (previoustime c) (previoustime c')"
      using scast_nonneg_bound [OF time] by (simp add: moved_forward_def c')
    moreover have "previouspinstate c' = 0 \<or> previouspinstate c' = 1"
      using poll_prev_01 [OF p01, of k] by (simp add: c' after_polls_def)
    ultimately show ?thesis by simp
  qed
qed

lemma syncpulse_monotonic:
  assumes mono: "clock_monotonic N c" and s: "syncpulse time c = Some c'"
  shows "(millis_reads c' \<le> N \<longrightarrow> moved_forward (previoustime c) (previoustime c')) \<and>
     clock_monotonic N c' \<and> previouspinstate c' = previouspinstate c"
proof -
  from syncpulse_Some [OF s] obtain k where c': "c' = pulse_result c k" by blast
  let ?d = "\<lambda>n. unat (poll_time c n - previoustime c)"
  have base: "previoustime c' = previoustime c + (poll_time c 0 - previoustime c)"
    by (simp add: c' pulse_result_def)
  have reads: "millis_reads c' = millis_reads c + Suc k"
    by (simp add: c' pulse_result_def)
  have time': "poll_time c' j = poll_time c (Suc k + j)" for j
    by (simp add: c' poll_time_def pulse_result_def add.assoc)
  have "clock_monotonic N c'"
    unfolding clock_monotonic_def
  proof (intro allI impI)
    fix i j :: nat
    assume ij: "i \<le> j" and jN: "millis_reads c' + j < N"
    from jN have jN': "millis_reads c + (Suc k + j) < N" by (simp add: reads)
    from ij jN' have iN': "millis_reads c + (Suc k + i) < N" by simp
    have ki: "?d 0 \<le> ?d (Suc k + i)"
      by (rule clock_monotonicD(1) [OF mono _ iN']) simp
    have kj: "?d 0 \<le> ?d (Suc k + j)"
      by (rule clock_monotonicD(1) [OF mono _ jN']) simp
    have di: "unat (poll_time c' i - previoustime c') = ?d (Suc k + i) - ?d 0"
      unfolding time' base using ki by (intro key_sub) simp
    have dj: "unat (poll_time c' j - previoustime c') = ?d (Suc k + j) - ?d 0"
      unfolding time' base using kj by (intro key_sub) simp
    have "Suc k + i \<le> Suc k + j" using ij by simp
    then have "?d (Suc k + i) \<le> ?d (Suc k + j) \<and> ?d (Suc k + j) < 2 ^ 31"
      using clock_monotonicD [OF mono _ jN'] by blast
    then show "unat (poll_time c' i - previoustime c') \<le> unat (poll_time c' j - previoustime c') \<and>
       unat (poll_time c' j - previoustime c') < 2 ^ 31"
      unfolding di dj by arith
  qed
  moreover have "moved_forward (previoustime c) (previoustime c')" if "millis_reads c' \<le> N"
  proof -
    from that have "millis_reads c + 0 < N" by (simp add: reads)
    then have "?d 0 < 2 ^ 31" by (rule clock_monotonicD(2) [OF mono order_refl])
    then show ?thesis by (simp add: moved_forward_def c' pulse_result_def)
  qed
  ultimately show ?thesis by (simp add: c' pulse_result_def)
qed

text \<open>
  Claim C8. Take clock readings that, up to the \<open>N\<close>-th, are non-decreasing and less than
  half the counter range ahead of the Timing Baseline, a budget that is not negative, and a
  recorded pin state of 0 or 1. Then every update of \<open>previoustime\<close> by \<open>waituntil\<close> (on
  timeout and on sync detection) and by \<open>syncpulse\<close> made within the first \<open>N\<close> reads moves
  it forward in wraparound-safe unsigned 32-bit arithmetic, and the readings still to come
  are again non-decreasing and ahead of the new Timing Baseline.
\<close>

theorem baseline_moves_forward:
  assumes "clock_monotonic N c" "previouspinstate c = 0 \<or> previouspinstate c = 1" "0 \<le> sint time"
  shows "(waituntil time c = Some (r, c') \<longrightarrow>
           (millis_reads c' \<le> N \<longrightarrow> moved_forward (previoustime c) (previoustime c')) \<and>
           clock_monotonic N c' \<and> (previouspinstate c' = 0 \<or> previouspinstate c' = 1)) \<and>
         (syncpulse time c = Some c'' \<longrightarrow>
           (millis_reads c'' \<le> N \<longrightarrow> moved_forward (previoustime c) (previoustime c'')) \<and>
           clock_monotonic N c'' \<and> previouspinstate c'' = previouspinstate c)"
  using waituntil_monotonic [OF assms] syncpulse_monotonic [OF assms(1)] by blast

lemma idle_poll: "j < 2 ^ 32 \<Longrightarrow> unat (poll_time idle_ctx j - previoustime idle_ctx) = j"
  by (simp add: poll_time_def idle_ctx_def unat_of_nat)

lemma idle_monotonic: "clock_monotonic 1000 idle_ctx"
  unfolding clock_monotonic_def
proof (intro allI impI)
  fix i j :: nat
  assume ij: "i \<le> j" and j: "millis_reads idle_ctx + j < 1000"
  then have "j < 1000" "i < 1000" by (simp_all add: idle_ctx_def)
  then show "unat (poll_time idle_ctx i - previoustime idle_ctx)
      \<le> unat (poll_time idle_ctx j - previoustime idle_ctx) \<and>
    unat (poll_time idle_ctx j - previoustime idle_ctx) < 2 ^ 31"
    using ij by (simp add: idle_poll)
qed

lemma idle_wait: "waituntil 25 idle_ctx = Some (wait_result 25 idle_ctx 25)"
proof (rule waituntil_stop_at)
  show "\<not> polling_at 25 idle_ctx 25"
    by (simp add: polling_at_def elapsed_at_def poll_time_def idle_ctx_def)
  show "\<forall>i<25. polling_at 25 idle_ctx i"
  proof (intro allI impI)
    fix i :: nat assume "i < 25"
    from small_of_nat_less [OF this] show "polling_at 25 idle_ctx i"
      by (simp add: polling_at_def elapsed_at_def poll_time_def poll_pin_def poll_prev_def
          idle_ctx_def)
  qed
qed

lemma idle_pulse: "syncpulse 25 idle_ctx = Some (pulse_result idle_ctx 25)"
proof (rule syncpulse_stop_at)
  show "\<not> pulse_on_at 25 idle_ctx 25"
    by (simp add: pulse_on_at_def poll_time_def idle_ctx_def)
  show "\<forall>i<25. pulse_on_at 25 idle_ctx i"
  proof (intro allI impI)
    fix i :: nat assume "i < 25"
    from small_of_nat_less [OF this] show "pulse_on_at 25 idle_ctx i"
      by (simp add: pulse_on_at_def poll_time_def idle_ctx_def)
  qed
qed

theorem baseline_moves_forward_witness:
  "\<exists>c' c''. waituntil 25 idle_ctx = Some (0, c') \<and> previoustime c' = 25 \<and>
     moved_forward (previoustime idle_ctx) (previoustime c') \<and> clock_monotonic 1000 c' \<and>
     syncpulse 25 idle_ctx = Some c'' \<and> previoustime c'' = 0 \<and>
     moved_forward (previoustime idle_ctx) (previoustime c'') \<and> clock_monotonic 1000 c''"
proof -
  have ne: "\<not> edge_at idle_ctx 25"
    by (simp add: edge_at_def poll_prev_def poll_pin_def idle_ctx_def)
  define c' where "c' = snd (wait_result 25 idle_ctx 25)"
  define c'' where "c'' = pulse_result idle_ctx 25"
  have w: "waituntil 25 idle_ctx = Some (0, c')"
    using ne by (simp add: idle_wait c'_def wait_result_def)
  have s: "syncpulse 25 idle_ctx = Some c''"
    by (simp add: idle_pulse c''_def)
  have r: "millis_reads c' \<le> 1000" "millis_reads c'' \<le> 1000"
    "previoustime c' = 25" "previoustime c'' = 0"
    using ne by (simp_all add: c'_def c''_def wait_result_def after_polls_def pulse_result_def
        poll_time_def idle_ctx_def)
  have p: "previouspinstate idle_ctx = 0 \<or> previouspinstate idle_ctx = 1"
    by (simp add: idle_ctx_def)
  have t: "0 \<le> sint (25 :: s16)" by simp
  from baseline_moves_forward [OF idle_monotonic p t, of 0 c' c''] w s r
  show ?thesis by blast
qed

section \<open>Timing of a full cycle\<close>

lemma setled_monotonic [simp]: "clock_monotonic N (setled l r c) = clock_monotonic N c"
  by (simp add: clock_monotonic_def)

lemma state_update_monotonic [simp]: "clock_monotonic N (c\<lparr>state := s\<rparr>) = clock_monotonic N c"
  by (simp add: clock_monotonic_def poll_time_def)

lemma sint_25: "0 \<le> sint (25 :: s16)"
  by simp

lemma play_monotonic:
  assumes "clock_monotonic N c" "previouspinstate c = 0 \<or> previouspinstate c = 1"
    "play S c = Some (b, c')"
  shows "clock_monotonic N c' \<and> (previouspinstate c' = 0 \<or> previouspinstate c' = 1)"
  using assms
proof (induction S arbitrary: c)
  case Nil
  then show ?case by simp
next
  case (Cons x S)
  obtain l r where x: "x = (l, r)" by (cases x)
  from Cons.prems(3) obtain w c1 where
    w: "waituntil 25 (setled l r c) = Some (w, c1)"
    by (auto simp: x split: option.splits)
  have "clock_monotonic N (setled l r c)"
    "previouspinstate (setled l r c) = 0 \<or> previouspinstate (setled l r c) = 1"
    using Cons.prems(1,2) by simp_all
  from waituntil_monotonic [OF this sint_25 w]
  have c1: "clock_monotonic N c1" "previouspinstate c1 = 0 \<or> previouspinstate c1 = 1"
    by simp_all
  show ?case
  proof (cases "w = 0")
    case True
    with Cons.prems(3) w have "play S c1 = Some (b, c')" by (simp add: x)
    from Cons.IH [OF c1 this] show ?thesis .
  next
    case False
    with Cons.prems(3) w have "c' = c1" by (simp add: x)
    with c1 show ?thesis by simp
  qed
qed

lemma pattern_monotonic:
  assumes "(pattern, body) \<in> set builtin_patterns" "clock_monotonic N c"
    "previouspinstate c = 0 \<or> previouspinstate c = 1" "pattern n c = Some c'"
  shows "clock_monotonic N c' \<and> (previouspinstate c' = 0 \<or> previouspinstate c' = 1)"
proof -
  from assms(4) obtain b where "play (concat (replicate (unat n) body)) c = Some (b, c')"
    by (auto simp: builtin_patterns_play [OF assms(1)])
  from play_monotonic [OF assms(2,3) this] show ?thesis .
qed

lemma tick_quiet_monotonic:
  assumes "(pattern, body) \<in> set builtin_patterns" "loop c = pattern n (c\<lparr>state := s\<rparr>)"
    "no_rising_edge c" "clock_advances c"
  shows "\<exists>c'. loop c = Some c' \<and> state c' = s \<and>
     previoustime c' = previoustime c + 25 * of_nat (unat n * length body) \<and>
     no_rising_edge c' \<and> clock_advances c' \<and> (clock_monotonic N c \<longrightarrow> clock_monotonic N c')"
proof -
  from tick_quiet [OF assms] obtain c' where
    c': "loop c = Some c'" "pattern n (c\<lparr>state := s\<rparr>) = Some c'" "state c' = s"
      "previoustime c' = previoustime c + 25 * of_nat (unat n * length body)"
      "no_rising_edge c'" "clock_advances c'"
    by (elim exE conjE)
  have "clock_monotonic N c'" if "clock_monotonic N c"
  proof -
    have "clock_monotonic N (c\<lparr>state := s\<rparr>)"
      "previouspinstate (c\<lparr>state := s\<rparr>) = 0 \<or> previouspinstate (c\<lparr>state := s\<rparr>) = 1"
      using that assms(3) by (simp_all add: no_rising_edge_def)
    from pattern_monotonic [OF assms(1) this c'(2)] show ?thesis by simp
  qed
  with c' show ?thesis by blast
qed

lemma eight_ticks_quiet:
  assumes "state c0 = 0" "no_rising_edge c0" "clock_advances c0"
  shows "\<exists>c8. ticks 8 c0 = Some c8 \<and> state c8 = 8 \<and>
     previoustime c8 = previoustime c0 + 36000 \<and>
     no_rising_edge c8 \<and> clock_advances c8 \<and> (clock_monotonic N c0 \<longrightarrow> clock_monotonic N c8)"
proof -
  from tick_quiet_monotonic [OF in_builtin(1) loop_dispatch(1) [OF assms(1)] assms(2,3), of N]
  obtain c1 where c1: "loop c0 = Some c1" "state c1 = 1"
      "previoustime c1 = previoustime c0 + 4000"
      "no_rising_edge c1" "clock_advances c1" "clock_monotonic N c0 \<longrightarrow> clock_monotonic N c1"
    by (auto simp: steps_lengths)
  from tick_quiet_monotonic [OF in_builtin(2) loop_dispatch(2) [OF c1(2)] c1(4,5), of N]
  obtain c2 where c2: "loop c1 = Some c2" "state c2 = 2"
      "previoustime c2 = previoustime c1 + 4000"
      "no_rising_edge c2" "clock_advances c2" "clock_monotonic N c1 \<longrightarrow> clock_monotonic N c2"
    by (auto simp: steps_lengths)
  from tick_quiet_monotonic [OF in_builtin(3) loop_dispatch(3) [OF c2(2)] c2(4,5), of N]
  obtain c3 where c3: "loop c2 = Some c3" "state c3 = 3"
      "previoustime c3 = previoustime c2 + 4000"
      "no_rising_edge c3" "clock_advances c3" "clock_monotonic N c2 \<longrightarrow> clock_monotonic N c3"
    by (auto simp: steps_lengths)
  from tick_quiet_monotonic [OF in_builtin(4) loop_dispatch(4) [OF c3(2)] c3(4,5), of N]
  obtain c4 where c4: "loop c3 = Some c4" "state c4 = 4"
      "previoustime c4 = previoustime c3 + 4000"
      "no_rising_edge c4" "clock_advances c4" "clock_monotonic N c3 \<longrightarrow> clock_monotonic N c4"
    by (auto simp: steps_lengths)
  from tick_quiet_monotonic [OF in_builtin(5) loop_dispatch(5) [OF c4(2)] c4(4,5), of N]
  obtain c5 where c5: "loop c4 = Some c5" "state c5 = 5"
      "previoustime c5 = previoustime c4 + 4000"
      "no_rising_edge c5" "clock_advances c5" "clock_monotonic N c4 \<longrightarrow> clock_monotonic N c5"
    by (auto simp: steps_lengths)
  from tick_quiet_monotonic [OF in_builtin(6) loop_dispatch(6) [OF c5(2)] c5(4,5), of N]
  obtain c6 where c6: "loop c5 = Some c6" "state c6 = 6"
      "previoustime c6 = previoustime c5 + 4000"
      "no_rising_edge c6" "clock_advances c6" "clock_monotonic N c5 \<longrightarrow> clock_monotonic N c6"
    by (auto simp: steps_lengths)
  from tick_quiet_monotonic [OF in_builtin(7) loop_dispatch(7) [OF c6(2)] c6(4,5), of N]
  obtain c7 where c7: "loop c6 = Some c7" "state c7 = 7"
      "previoustime c7 = previoustime c6 + 4000"
      "no_rising_edge c7" "clock_advances c7" "clock_monotonic N c6 \<longrightarrow> clock_monotonic N c7"
    by (auto simp: steps_lengths)
  from tick_quiet_monotonic [OF in_builtin(8) loop_dispatch(8) [OF c7(2)] c7(4,5), of N]
  obtain c8 where c8: "loop c7 = Some c8" "state c8 = 8"
      "previoustime c8 = previoustime c7 + 8000"
      "no_rising_edge c8" "clock_advances c8" "clock_monotonic N c7 \<longrightarrow> clock_monotonic N c8"
    by (auto simp: steps_lengths)
  have "ticks 8 c0 = Some c8"
    using c1(1) c2(1) c3(1) c4(1) c5(1) c6(1) c7(1) c8(1) by (simp add: eval_nat_numeral)
  moreover have "previoustime c8 = previoustime c0 + 36000"
    by (simp add: c1(3) c2(3) c3(3) c4(3) c5(3) c6(3) c7(3) c8(3))
  moreover have "clock_monotonic N c0 \<longrightarrow> clock_monotonic N c8"
    using c1(6) c2(6) c3(6) c4(6) c5(6) c6(6) c7(6) c8(6) by blast
  ultimately show ?thesis using c8(2,4,5) by blast
qed

lemma pulse_lower_bound:
  fixes te ts p8 p0 :: u32
  assumes p8: "p8 = p0 + 36000"
    and le: "unat (ts - p8) \<le> unat (te - p8)" and lt: "unat (te - p8) < 2 ^ 31"
    and dur: "\<not> te - ts < 25"
  shows "36025 \<le> unat (te - p0)"
proof -
  have "ts - p8 \<le> te - p8" using le by (simp add: word_le_nat_alt)
  then have "unat ((te - p8) - (ts - p8)) = unat (te - p8) - unat (ts - p8)"
    by (rule unat_sub)
  moreover have "(te - p8) - (ts - p8) = te - ts" by simp
  ultimately have d: "unat (te - ts) = unat (te - p8) - unat (ts - p8)" by simp
  from dur have "(25 :: u32) \<le> te - ts" by (simp add: not_less)
  then have "25 \<le> unat (te - ts)" by (simp add: word_le_nat_alt)
  with d have B: "25 \<le> unat (te - p8)" by simp
  have "unat (te - p8) + unat (36000 :: u32) < 2 ^ LENGTH(32)" using lt by simp
  then have "unat ((te - p8) + 36000) = unat (te - p8) + unat (36000 :: u32)"
    by (simp only: unat_add_lem)
  moreover have "(te - p8) + 36000 = te - p0" by (simp add: p8)
  ultimately have "unat (te - p0) = unat (te - p8) + 36000" by simp
  with B show ?thesis by simp
qed

text \<open>
  Claim C6, as amended. From \<open>state = 0\<close>, with no sync edge and a clock that advances, the
  eight patterns run 4 * 40 + 4 * 40 + 8 * 20 + 8 * 20 + 8 * 20 + 8 * 20 + 4 * 40 + 4 * 80 = 1440
  steps of 25 ms (48 repeat units of 20, 40 or, for the random pattern, 80 steps), and the
  Timing Baseline after them is the initial one plus 1440 * 25 ms = 36000 ms exactly. The ninth
  tick sends the sync pulse, which lasts from its first clock reading to the first reading
  at least 25 ms later, and resets \<open>state\<close> to 0. With a monotonic clock the last reading
  of the cycle is at least 36025 ms after the initial Timing Baseline; it is exactly
  36025 ms after it when the pulse starts at a reading equal to the Timing Baseline and
  ends at a reading 25 ms later, as on a simulated clock without polling overhead.
\<close>

theorem full_cycle_timing:
  assumes "state c0 = 0" "no_rising_edge c0" "clock_advances c0"
  shows "\<exists>c8 c9 k.
    ticks 8 c0 = Some c8 \<and> state c8 = 8 \<and>
    previoustime c8 = previoustime c0 +
      25 * (4 * 40 + 4 * 40 + 8 * 20 + 8 * 20 + 8 * 20 + 8 * 20 + 4 * 40 + 4 * 80) \<and>
    ticks 9 c0 = Some c9 \<and> state c9 = 0 \<and>
    previoustime c9 = poll_time c8 0 \<and> millis_reads c9 = millis_reads c8 + Suc k \<and>
    (\<forall>i<k. poll_time c8 i - poll_time c8 0 < 25) \<and> \<not> poll_time c8 k - poll_time c8 0 < 25 \<and>
    (clock_monotonic (millis_reads c9) c0 \<longrightarrow> 36025 \<le> unat (poll_time c8 k - previoustime c0)) \<and>
    (poll_time c8 0 = previoustime c8 \<and> poll_time c8 k = poll_time c8 0 + 25 \<longrightarrow>
       unat (poll_time c8 k - previoustime c0) = 36025)"
proof -
  from eight_ticks_quiet [OF assms] obtain c8 where
    c8: "ticks 8 c0 = Some c8" "state c8 = 8" "previoustime c8 = previoustime c0 + 36000"
      "no_rising_edge c8" "clock_advances c8"
    by blast
  from pulse_tick_quiet [OF c8(2,4,5)] obtain c9 k where
    c9: "loop c8 = Some c9" "state c9 = 0" "previoustime c9 = poll_time c8 0"
      "millis_reads c9 = millis_reads c8 + Suc k"
      "\<forall>i<k. poll_time c8 i - poll_time c8 0 < 25" "\<not> poll_time c8 k - poll_time c8 0 < 25"
    by (elim exE conjE)
  have t9: "ticks 9 c0 = Some c9"
  proof -
    have "ticks (8 + 1) c0 = (case ticks 8 c0 of None \<Rightarrow> None | Some c \<Rightarrow> ticks 1 c)" for c0
      by (simp add: eval_nat_numeral split: option.splits)
    then show ?thesis using c8(1) c9(1) by simp
  qed
  have lower: "36025 \<le> unat (poll_time c8 k - previoustime c0)"
    if mono: "clock_monotonic (millis_reads c9) c0"
  proof -
    from eight_ticks_quiet [OF assms, of "millis_reads c9"] c8(1) mono
    have m8: "clock_monotonic (millis_reads c9) c8" by auto
    have kN: "millis_reads c8 + k < millis_reads c9" by (simp add: c9(4))
    show ?thesis
      by (rule pulse_lower_bound [OF c8(3) clock_monotonicD(1) [OF m8 le0 kN]
            clock_monotonicD(2) [OF m8 le0 kN] c9(6)])
  qed
  have exact: "unat (poll_time c8 k - previoustime c0) = 36025"
    if "poll_time c8 0 = previoustime c8 \<and> poll_time c8 k = poll_time c8 0 + 25"
  proof -
    from that have "poll_time c8 k - previoustime c0 = 36025" by (simp add: c8(3))
    then show ?thesis by simp
  qed
  show ?thesis
    apply (rule exI [of _ c8], rule exI [of _ c9], rule exI [of _ k])
    using c8(1,2,3) t9 c9(2,3,4,5,6) lower exact
    apply simp
    done
qed

text \<open>
  On a regular clock every wait takes the same number of reads and ends on its deadline:
  26 reads on the simulated clock of \<open>sim_ctx\<close>, 25 reads on the clock of \<open>idle_ctx\<close>, which
  advances by 1 ms with every read.
\<close>

lemma sim_clock_offset:
  assumes "j < 26"
  shows "sim_clock (26 * w + j) = of_nat (25 * w + j)"
proof -
  from assms have "(26 * w + j) div 26 = w" "(26 * w + j) mod 26 = j" by simp_all
  then show ?thesis by (simp only: sim_clock_def)
qed

lemma on_schedule_poll:
  assumes "on_schedule E a w c" "j < a"
  shows "poll_time c j - previoustime c = of_nat (26 - a + j)"
proof -
  from assms have "elapsedmillis c (a * w + (26 - a) + j) = of_nat (25 * w + (26 - a) + j)"
    unfolding on_schedule_def regular_clock_def by blast
  moreover have "poll_time c j = elapsedmillis c (a * w + (26 - a) + j)"
    using assms(1) by (simp add: poll_time_def on_schedule_def)
  moreover have "previoustime c = of_nat (25 * w)" using assms(1) by (simp add: on_schedule_def)
  ultimately show ?thesis by (simp add: add.assoc)
qed

lemma wait_on_schedule:
  assumes "on_schedule E a w c"
  shows "\<exists>c'. waituntil 25 (setled l r c) = Some (0, c') \<and> on_schedule E a (Suc w) c' \<and>
     state c' = state c"
proof -
  let ?c = "setled l r c"
  let ?k = "a - 1"
  from assms have a: "1 \<le> a" "a \<le> 26" by (simp_all add: on_schedule_def regular_clock_def)
  have os: "on_schedule E a w ?c" using assms by (simp add: on_schedule_def)
  then have nr: "no_rising_edge ?c" by (simp add: on_schedule_def)
  then have p01: "previouspinstate ?c = 0 \<or> previouspinstate ?c = 1"
    by (simp add: no_rising_edge_def)
  have before: "\<forall>i<?k. polling_at 25 ?c i"
  proof (intro allI impI)
    fix i :: nat assume i: "i < ?k"
    then have "i < a" by simp
    from on_schedule_poll [OF os this]
    have d: "poll_time ?c i - previoustime ?c = of_nat (26 - a + i)" .
    from i a have "26 - a + i < 25" by arith
    from small_of_nat_less [OF this] d have "\<not> elapsed_at 25 ?c i"
      by (simp add: elapsed_at_def)
    with no_edge_pins [OF p01 no_rising_no_edge [OF nr]] show "polling_at 25 ?c i"
      by (simp add: polling_at_def)
  qed
  have "?k < a" using a by simp
  from on_schedule_poll [OF os this]
  have "poll_time ?c ?k - previoustime ?c = of_nat (26 - a + ?k)" .
  moreover have "26 - a + ?k = 25" using a by arith
  ultimately have stop: "\<not> polling_at 25 ?c ?k"
    by (simp add: polling_at_def elapsed_at_def)
  let ?c' = "(after_polls ?c ?k)\<lparr>previoustime := previoustime ?c + 25\<rparr>"
  have r: "wait_result 25 ?c ?k = (0, ?c')"
    using no_rising_no_edge [OF nr] by (simp add: wait_result_def)
  have m: "a * w + (26 - a) + Suc ?k = a * Suc w + (26 - a)" using a by simp
  have "on_schedule E a (Suc w) ?c'"
    using os no_rising_after [OF nr, where k = ?k and p = "previoustime ?c + 25"] m
    by (simp add: on_schedule_def after_polls_def)
  moreover have "state ?c' = state c" by (simp add: after_polls_def)
  ultimately show ?thesis using waituntil_stop_at [OF stop before] r by simp
qed

lemma play_on_schedule:
  assumes "on_schedule E a w c"
  shows "\<exists>c'. play S c = Some (False, c') \<and> on_schedule E a (w + length S) c' \<and> state c' = state c"
  using assms
proof (induction S arbitrary: c w)
  case Nil
  then show ?case by simp
next
  case (Cons x S)
  obtain l r where x: "x = (l, r)" by (cases x)
  from wait_on_schedule [OF Cons.prems, of l r] obtain c1 where
    c1: "waituntil 25 (setled l r c) = Some (0, c1)" "on_schedule E a (Suc w) c1" "state c1 = state c"
    by blast
  from Cons.IH [OF c1(2)] obtain c' where
    c': "play S c1 = Some (False, c')" "on_schedule E a (Suc w + length S) c'" "state c' = state c1"
    by blast
  have "play (x # S) c = Some (False, c')" using c1(1) c'(1) by (simp add: x)
  with c'(2,3) c1(3) show ?case by simp
qed

lemma tick_on_schedule:
  assumes "(pattern, body) \<in> set builtin_patterns" "loop c = pattern n (c\<lparr>state := s\<rparr>)"
    "on_schedule E a w c"
  shows "\<exists>c'. loop c = Some c' \<and> state c' = s \<and> on_schedule E a (w + unat n * length body) c'"
proof -
  have "on_schedule E a w (c\<lparr>state := s\<rparr>)" using assms(3) by (simp add: on_schedule_def)
  from play_on_schedule [OF this, of "concat (replicate (unat n) body)"] obtain c' where
    c': "play (concat (replicate (unat n) body)) (c\<lparr>state := s\<rparr>) = Some (False, c')"
      "on_schedule E a (w + length (concat (replicate (unat n) body))) c'" "state c' = s"
    by auto
  have "length (concat (replicate (unat n) body)) = unat n * length body"
    by (induction "unat n") (simp_all add: length_concat sum_list_replicate)
  with c' show ?thesis
    by (simp add: assms(2) builtin_patterns_play [OF assms(1)])
qed

lemma eight_ticks_on_schedule:
  assumes "state c0 = 0" "on_schedule E a 0 c0"
  shows "\<exists>c8. ticks 8 c0 = Some c8 \<and> state c8 = 8 \<and> on_schedule E a 1440 c8"
proof -
  from tick_on_schedule [OF in_builtin(1) loop_dispatch(1) [OF assms(1)] assms(2)]
  obtain c1 where c1: "loop c0 = Some c1" "state c1 = 1" "on_schedule E a 160 c1"
    by (auto simp: steps_lengths)
  from tick_on_schedule [OF in_builtin(2) loop_dispatch(2) [OF c1(2)] c1(3)]
  obtain c2 where c2: "loop c1 = Some c2" "state c2 = 2" "on_schedule E a 320 c2"
    by (auto simp: steps_lengths)
  from tick_on_schedule [OF in_builtin(3) loop_dispatch(3) [OF c2(2)] c2(3)]
  obtain c3 where c3: "loop c2 = Some c3" "state c3 = 3" "on_schedule E a 480 c3"
    by (auto simp: steps_lengths)
  from tick_on_schedule [OF in_builtin(4) loop_dispatch(4) [OF c3(2)] c3(3)]
  obtain c4 where c4: "loop c3 = Some c4" "state c4 = 4" "on_schedule E a 640 c4"
    by (auto simp: steps_lengths)
  from tick_on_schedule [OF in_builtin(5) loop_dispatch(5) [OF c4(2)] c4(3)]
  obtain c5 where c5: "loop c4 = Some c5" "state c5 = 5" "on_schedule E a 800 c5"
    by (auto simp: steps_lengths)
  from tick_on_schedule [OF in_builtin(6) loop_dispatch(6) [OF c5(2)] c5(3)]
  obtain c6 where c6: "loop c5 = Some c6" "state c6 = 6" "on_schedule E a 960 c6"
    by (auto simp: steps_lengths)
  from tick_on_schedule [OF in_builtin(7) loop_dispatch(7) [OF c6(2)] c6(3)]
  obtain c7 where c7: "loop c6 = Some c7" "state c7 = 7" "on_schedule E a 1120 c7"
    by (auto simp: steps_lengths)
  from tick_on_schedule [OF in_builtin(8) loop_dispatch(8) [OF c7(2)] c7(3)]
  obtain c8 where c8: "loop c7 = Some c8" "state c8 = 8" "on_schedule E a 1440 c8"
    by (auto simp: steps_lengths)
  have "ticks 8 c0 = Some c8"
    using c1(1) c2(1) c3(1) c4(1) c5(1) c6(1) c7(1) c8(1) by (simp add: eval_nat_numeral)
  with c8(2,3) show ?thesis by blast
qed

lemma sim_quiet: "state sim_ctx = 0" "no_rising_edge sim_ctx" "clock_advances sim_ctx"
  "on_schedule sim_clock 26 0 sim_ctx"
proof -
  show "state sim_ctx = 0" by (simp add: sim_ctx_def)
  have "pin_history sim_ctx j = 1" for j
    by (cases j) (simp_all add: pin_history_def poll_pin_def sim_ctx_def)
  then show nr: "no_rising_edge sim_ctx"
    by (simp add: no_rising_edge_def sim_ctx_def)
  have "elapsedmillis sim_ctx (26 * v + (26 - 26) + j) = of_nat (25 * v + (26 - 26) + j)"
    if "j < 26" for v j
    using sim_clock_offset [OF that, of v] by (simp add: sim_ctx_def)
  then have "regular_clock 26 sim_clock" by (simp add: regular_clock_def sim_ctx_def)
  with nr show "on_schedule sim_clock 26 0 sim_ctx" by (simp add: on_schedule_def sim_ctx_def)
  have "\<exists>j\<ge>i. \<not> sim_clock j - p < 25" for p i
  proof (cases "sim_clock (26 * i + 0) - p < 25")
    case False
    moreover have "i \<le> 26 * i + 0" by simp
    ultimately show ?thesis by blast
  next
    case True
    have "sim_clock (26 * i + 25) = sim_clock (26 * i + 0) + 25"
      using sim_clock_offset [of 25 i] sim_clock_offset [of 0 i] by simp
    then have e: "sim_clock (26 * i + 25) - p = (sim_clock (26 * i + 0) - p) + 25" by simp
    have "\<not> sim_clock (26 * i + 25) - p < 25"
      unfolding e by (rule add25 [OF True])
    moreover have "i \<le> 26 * i + 25" by simp
    ultimately show ?thesis by blast
  qed
  then show "clock_advances sim_ctx" by (simp add: clock_advances_def sim_ctx_def)
qed

lemma sim_monotonic: "clock_monotonic 37466 sim_ctx"
  unfolding clock_monotonic_def
proof (intro allI impI)
  fix i j :: nat
  assume ij: "i \<le> j" and "millis_reads sim_ctx + j < 37466"
  then have j: "j < 37466" by (simp add: sim_ctx_def)
  let ?f = "\<lambda>k::nat. 25 * (k div 26) + k mod 26"
  have le: "?f i \<le> ?f j"
  proof (cases "i div 26 = j div 26")
    case True
    have "i mod 26 \<le> j mod 26"
      using ij True by (metis mod_less_eq_dividend div_mult_mod_eq nat_add_left_cancel_le)
    with True show ?thesis by simp
  next
    case False
    with ij have "i div 26 < j div 26" by (simp add: div_le_mono le_neq_implies_less)
    moreover have "i mod 26 < 26" by simp
    ultimately show ?thesis by linarith
  qed
  have "j div 26 \<le> 1441" using j by simp
  moreover have "j mod 26 < 26" by simp
  ultimately have bound: "?f j < 40000" by linarith
  with le have bound_i: "?f i < 40000" by simp
  have u: "unat (poll_time sim_ctx k - previoustime sim_ctx) = ?f k" if "?f k < 40000" for k
  proof -
    have "poll_time sim_ctx k - previoustime sim_ctx = sim_clock k"
      by (simp add: poll_time_def sim_ctx_def)
    then have "unat (poll_time sim_ctx k - previoustime sim_ctx) = ?f k mod 2 ^ LENGTH(32)"
      by (simp only: sim_clock_def unat_of_nat)
    also have "\<dots> = ?f k" using that by simp
    finally show ?thesis .
  qed
  show "unat (poll_time sim_ctx i - previoustime sim_ctx)
      \<le> unat (poll_time sim_ctx j - previoustime sim_ctx) \<and>
    unat (poll_time sim_ctx j - previoustime sim_ctx) < 2 ^ 31"
    using le bound by (simp add: u [OF bound] u [OF bound_i])
qed

lemma idle_on_schedule: "state (setup_badge idle_ctx) = 0" "on_schedule of_nat 25 0 (setup_badge idle_ctx)"
proof -
  show "state (setup_badge idle_ctx) = 0" by (simp add: setup_badge_def millis_def Let_def)
  have "pin_history (setup_badge idle_ctx) j = 1" for j
    by (cases j) (simp_all add: pin_history_def poll_pin_def setup_badge_def millis_def Let_def idle_ctx_def)
  then have nr: "no_rising_edge (setup_badge idle_ctx)"
    by (simp add: no_rising_edge_def setup_badge_def millis_def Let_def)
  have "regular_clock 25 of_nat" by (simp add: regular_clock_def)
  with nr show "on_schedule of_nat 25 0 (setup_badge idle_ctx)"
    by (simp add: on_schedule_def setup_badge_def millis_def Let_def idle_ctx_def fun_eq_iff)
qed

lemma idle_cycle:
  "\<exists>c9. main_ticks 9 idle_ctx = Some c9 \<and> millis_reads c9 = 36027 \<and>
     elapsedmillis c9 36026 = 36026"
proof -
  from eight_ticks_on_schedule [OF idle_on_schedule] obtain c8 where
    c8: "ticks 8 (setup_badge idle_ctx) = Some c8" "state c8 = 8" "on_schedule of_nat 25 1440 c8"
    by blast
  let ?c = "c8\<lparr>state := 9\<rparr>"
  have reads: "millis_reads c8 = 36001" using c8(3) by (simp add: on_schedule_def)
  have P: "poll_time ?c j = of_nat (36001 + j)" for j
    using c8(3) by (simp add: poll_time_def on_schedule_def)
  have on: "\<forall>i<25. pulse_on_at 25 ?c i"
  proof (intro allI impI)
    fix i :: nat assume i: "i < 25"
    have "poll_time ?c i - poll_time ?c 0 = of_nat i" using i P [of i] P [of 0] by simp
    with small_of_nat_less [OF i] show "pulse_on_at 25 ?c i" by (simp add: pulse_on_at_def)
  qed
  have "poll_time ?c 25 - poll_time ?c 0 = 25" using P [of 25] P [of 0] by simp
  then have off: "\<not> pulse_on_at 25 ?c 25" by (simp add: pulse_on_at_def)
  let ?c9 = "(pulse_result ?c 25)\<lparr>state := 0\<rparr>"
  have "loop c8 = Some ?c9"
    using syncpulse_stop_at [OF off on] by (simp add: loop_dispatch_pulse [OF c8(2)])
  then have "ticks 9 (setup_badge idle_ctx) = Some ?c9"
  proof -
    assume l: "loop c8 = Some ?c9"
    have "ticks (8 + 1) c0 = (case ticks 8 c0 of None \<Rightarrow> None | Some c \<Rightarrow> ticks 1 c)" for c0
      by (simp add: eval_nat_numeral split: option.splits)
    then show ?thesis using c8(1) l by simp
  qed
  moreover have "millis_reads ?c9 = 36027" by (simp add: pulse_result_def reads)
  moreover have "elapsedmillis ?c9 36026 = 36026"
    using P [of 25] by (simp add: pulse_result_def poll_time_def reads)
  ultimately show ?thesis unfolding main_ticks_def by blast
qed

text \<open>
  The claim as first stated gives every repeat unit 20 or 40 steps, and the cycle
  1440 * 25 ms + 25 ms whatever the clock. One repeat of the random pattern moves the Timing
  Baseline by 80 * 25 ms. And on the clock of \<open>idle_ctx\<close>, which \<open>setup\<close> reads as 0 and which
  advances by 1 ms with every read, the pulse starts 1 ms after the last deadline: the last
  reading of the cycle is 36026 ms.
\<close>

theorem full_cycle_timing_counterexample:
  "map_option previoustime (twoledsrandom 1 idle_ctx) = Some (80 * 25) \<and>
   (80 * 25 :: u32) \<noteq> 20 * 25 \<and> (80 * 25 :: u32) \<noteq> 40 * 25 \<and>
   previoustime (setup_badge idle_ctx) = 0 \<and>
   map_option (\<lambda>c. elapsedmillis c (millis_reads c - 1)) (main_ticks 9 idle_ctx) = Some 36026 \<and>
   (36026 :: u32) \<noteq> 1440 * 25 + 25"
proof -
  from pattern_quiet [OF in_builtin(8) idle_quiet, of 1] obtain c' where
    "twoledsrandom 1 idle_ctx = Some c'"
    "previoustime c' = previoustime idle_ctx + 25 * of_nat (unat (1 :: u8) * length twoledsrandom_steps)"
    by blast
  then have a: "map_option previoustime (twoledsrandom 1 idle_ctx) = Some (80 * 25)"
    by (simp add: steps_lengths idle_ctx_def)
  have b: "previoustime (setup_badge idle_ctx) = 0"
    by (simp add: setup_badge_def millis_def Let_def idle_ctx_def)
  from idle_cycle obtain c9 where
    "main_ticks 9 idle_ctx = Some c9" "millis_reads c9 = 36027" "elapsedmillis c9 36026 = 36026"
    by blast
  then have c: "map_option (\<lambda>c. elapsedmillis c (millis_reads c - 1)) (main_ticks 9 idle_ctx) = Some 36026"
    by simp
  from a b c show ?thesis by simp
qed

text \<open>
  On the simulated clock of \<open>sim_ctx\<close> the cycle takes 37466 reads, and the last of them
  returns 36025 ms.
\<close>

theorem full_cycle_timing_witness:
  "\<exists>c9. ticks 9 sim_ctx = Some c9 \<and> state c9 = 0 \<and> previoustime c9 = 36000 \<and>
     millis_reads c9 = 37466 \<and> clock_monotonic (millis_reads c9) sim_ctx \<and>
     36025 \<le> unat (elapsedmillis sim_ctx 37465 - previoustime sim_ctx) \<and>
     unat (elapsedmillis sim_ctx 37465 - previoustime sim_ctx) = 36025"
proof -
  from full_cycle_timing [OF sim_quiet(1,2,3)] obtain c8 c9 k where
    t8: "ticks 8 sim_ctx = Some c8" and t9: "ticks 9 sim_ctx = Some c9" and s9: "state c9 = 0"
    and p9: "previoustime c9 = poll_time c8 0" and m9: "millis_reads c9 = millis_reads c8 + Suc k"
    and on: "\<forall>i<k. poll_time c8 i - poll_time c8 0 < 25"
    and off: "\<not> poll_time c8 k - poll_time c8 0 < 25"
    and lower: "clock_monotonic (millis_reads c9) sim_ctx \<longrightarrow>
        36025 \<le> unat (poll_time c8 k - previoustime sim_ctx)"
    and exact: "poll_time c8 0 = previoustime c8 \<and> poll_time c8 k = poll_time c8 0 + 25 \<longrightarrow>
        unat (poll_time c8 k - previoustime sim_ctx) = 36025"
    by (elim exE conjE)
  from eight_ticks_on_schedule [OF sim_quiet(1,4)] t8 have os: "on_schedule sim_clock 26 1440 c8"
    by simp
  have d: "poll_time c8 j - previoustime c8 = of_nat j" if "j \<le> 25" for j
  proof -
    from that have "j < 26" by simp
    from on_schedule_poll [OF os this] show ?thesis by simp
  qed
  from d [of 0] have start: "poll_time c8 0 = previoustime c8" by simp
  have k: "k = 25"
  proof (rule ccontr)
    assume "k \<noteq> 25"
    then consider "k < 25" | "25 < k" by linarith
    then show False
    proof cases
      case 1
      then have "poll_time c8 k - poll_time c8 0 = of_nat k" by (simp add: start d)
      with small_of_nat_less [OF 1] off show False by simp
    next
      case 2
      with on have "poll_time c8 25 - poll_time c8 0 < 25" by blast
      then show False by (simp add: start d)
    qed
  qed
  have "poll_time c8 k - poll_time c8 0 = 25" by (simp add: k start d)
  then have "poll_time c8 k = poll_time c8 0 + 25" by (simp add: algebra_simps)
  with exact start have e: "unat (poll_time c8 k - previoustime sim_ctx) = 36025" by blast
  have reads: "millis_reads c9 = 37466"
    using os by (simp add: m9 k on_schedule_def)
  with sim_monotonic have mono: "clock_monotonic (millis_reads c9) sim_ctx" by simp
  with lower have l: "36025 \<le> unat (poll_time c8 k - previoustime sim_ctx)" by blast
  have last: "poll_time c8 k = elapsedmillis sim_ctx 37465"
    using os by (simp add: poll_time_def k on_schedule_def sim_ctx_def)
  have "previoustime c9 = 36000"
    using os by (simp add: p9 start on_schedule_def)
  with t9 s9 reads mono l e show ?thesis unfolding last by blast
qed

section \<open>The random pattern\<close>


section \<open>The frame of setled\<close>

lemmas reg_ops = PA_and_def PA_or_def PAC_and_def PAC_or_def PB_and_def PB_or_def
  PBC_and_def PBC_or_def stmts_def

lemma switch_right_left_pins: "left_pins (switch_right right r) = left_pins r"
  by (simp add: switch_right_def left_pins_def reg_ops bit.conj_disj_distrib2 and.assoc)

lemma switch_left_right_pins: "right_pins (switch_left left r) = right_pins r"
  by (simp add: switch_left_def right_pins_def reg_ops bit.conj_disj_distrib2 and.assoc)

lemma setled_right_left_pins: "left_pins (setled_right right r) = left_pins r"
proof -
  have "left_pins (stmts [PAC_and 0xfe, PBC_and 0xf0] r) = left_pins r"
    by (simp add: left_pins_def reg_ops and.assoc)
  then show ?thesis
    by (simp add: setled_right_def switch_right_left_pins)
qed

lemma setled_left_right_pins: "right_pins (setled_left left r) = right_pins r"
proof -
  have "right_pins (stmts [PAC_and 0x7f, PBC_and 0x0f] r) = right_pins r"
    by (simp add: right_pins_def reg_ops and.assoc)
  then show ?thesis
    by (simp add: setled_left_def switch_left_right_pins)
qed

lemma left_off_pins: "left_off r = (fst (snd (left_pins r)) = 0 \<and> snd (snd (snd (left_pins r))) = 0)"
  by (simp add: left_off_def left_pins_def)

lemma right_off_pins: "right_off r = (fst (snd (right_pins r)) = 0 \<and> snd (snd (snd (right_pins r))) = 0)"
  by (simp add: right_off_def right_pins_def)

lemma setled_left_20: "left_off (setled_left 20 r)"
  by (simp add: setled_left_def switch_left_def left_off_def reg_ops and.assoc)

lemma setled_right_20: "right_off (setled_right 20 r)"
  by (simp add: setled_right_def switch_right_def right_off_def reg_ops and.assoc)

text \<open>
  Claim C9. An argument equal to 20 switches the corresponding side off: all pins of the
  side are inputs after the call. An argument of 21 or more leaves the bits of the side in
  PA, PAC, PB and PBC unchanged, and the call does to the registers what the half of
  \<open>setled\<close> for the other side does.
\<close>

theorem setled_off_and_unchanged:
  "(left = 20 \<longrightarrow> left_off (regs (setled left right c))) \<and>
   (right = 20 \<longrightarrow> right_off (regs (setled left right c))) \<and>
   (21 \<le> sint left \<longrightarrow> left_pins (regs (setled left right c)) = left_pins (regs c) \<and>
       regs (setled left right c) = setled_right right (regs c)) \<and>
   (21 \<le> sint right \<longrightarrow> right_pins (regs (setled left right c)) = right_pins (regs c) \<and>
       regs (setled left right c) = setled_left left (regs c))"
proof (intro conjI impI)
  assume "left = 20"
  then show "left_off (regs (setled left right c))"
    using setled_left_20 [of "regs c"]
    by (simp add: setled_def left_off_pins setled_right_left_pins)
next
  assume "right = 20"
  then show "right_off (regs (setled left right c))"
    by (simp add: setled_def setled_right_20)
next
  assume "21 \<le> sint left"
  then show "left_pins (regs (setled left right c)) = left_pins (regs c)"
    by (simp add: setled_def setled_right_left_pins setled_left_def)
next
  assume "21 \<le> sint left"
  then show "regs (setled left right c) = setled_right right (regs c)"
    by (simp add: setled_def setled_left_def)
next
  assume "21 \<le> sint right"
  then show "right_pins (regs (setled left right c)) = right_pins (regs c)"
    by (simp add: setled_def setled_left_right_pins setled_right_def)
next
  assume "21 \<le> sint right"
  then show "regs (setled left right c) = setled_left left (regs c)"
    by (simp add: setled_def setled_right_def)
qed

theorem setled_off_and_unchanged_witness:
  "left_off (regs (setled 20 21 idle_ctx)) \<and>
   right_pins (regs (setled 20 21 idle_ctx)) = right_pins (regs idle_ctx) \<and>
   right_off (regs (setled 21 20 idle_ctx)) \<and>
   left_pins (regs (setled 21 20 idle_ctx)) = left_pins (regs idle_ctx)"
proof -
  have "(20 :: s8) = 20 \<and> 21 \<le> sint (21 :: s8)" by simp
  with setled_off_and_unchanged [of 20 21 idle_ctx] setled_off_and_unchanged [of 21 20 idle_ctx]
  show ?thesis by blast
qed

section \<open>The range of the Sequence State\<close>

lemma wait_result_state:
  "state (snd (wait_result time c k)) = state c \<or> state (snd (wait_result time c k)) = 0"
  by (simp add: wait_result_def after_polls_def)

lemma waituntil_state:
  assumes "waituntil time c = Some (r, c')"
  shows "state c' = state c \<or> state c' = 0"
proof -
  from waituntil_Some [OF assms] obtain k where "(r, c') = wait_result time c k" by blast
  then have "c' = snd (wait_result time c k)" by (metis snd_conv)
  then show ?thesis using wait_result_state [of time c k] by simp
qed

lemma play_state:
  assumes "play S c = Some (b, c')"
  shows "state c' = state c \<or> state c' = 0"
  using assms
proof (induction S arbitrary: c)
  case Nil
  then show ?case by simp
next
  case (Cons x S)
  obtain l r where x: "x = (l, r)" by (cases x)
  from Cons.prems obtain w c1 where
    w: "waituntil 25 (setled l r c) = Some (w, c1)"
    by (auto simp: x split: option.splits)
  from waituntil_state [OF w] have c1: "state c1 = state c \<or> state c1 = 0" by simp
  show ?case
  proof (cases "w = 0")
    case True
    with Cons.prems w have "play S c1 = Some (b, c')" by (simp add: x)
    from Cons.IH [OF this] c1 show ?thesis by auto
  next
    case False
    with Cons.prems w have "c' = c1" by (simp add: x)
    with c1 show ?thesis by simp
  qed
qed

lemma pattern_state:
  assumes "(pattern, body) \<in> set builtin_patterns" "pattern n c = Some c'"
  shows "state c' = state c \<or> state c' = 0"
proof -
  from assms(2) obtain b where "play (concat (replicate (unat n) body)) c = Some (b, c')"
    by (auto simp: builtin_patterns_play [OF assms(1)])
  from play_state [OF this] show ?thesis .
qed

lemma syncpulse_state:
  assumes "syncpulse time c = Some c'"
  shows "state c' = state c"
proof -
  from syncpulse_Some [OF assms] obtain k where "c' = pulse_result c k" by blast
  then show ?thesis by (simp add: pulse_result_def)
qed

lemma tick_state:
  assumes "(pattern, body) \<in> set builtin_patterns" "loop c = pattern n (c\<lparr>state := s\<rparr>)"
    "loop c = Some c'" "unat s \<le> 8"
  shows "unat (state c') \<le> 8"
proof -
  from assms(2,3) have "pattern n (c\<lparr>state := s\<rparr>) = Some c'" by simp
  from pattern_state [OF assms(1) this] assms(4) show ?thesis by auto
qed

lemma small_state_cases:
  fixes s :: u8
  assumes "unat s \<le> 8"
  shows "s = 0 \<or> s = 1 \<or> s = 2 \<or> s = 3 \<or> s = 4 \<or> s = 5 \<or> s = 6 \<or> s = 7 \<or> s = 8"
proof -
  have s: "s = of_nat (unat s)" by simp
  from assms have "unat s = 0 \<or> unat s = 1 \<or> unat s = 2 \<or> unat s = 3 \<or> unat s = 4 \<or>
      unat s = 5 \<or> unat s = 6 \<or> unat s = 7 \<or> unat s = 8" by arith
  then show ?thesis by (elim disjE) (subst s, simp)+
qed

lemma loop_state_range:
  assumes "unat (state c) \<le> 8" "loop c = Some c'"
  shows "unat (state c') \<le> 8"
proof -
  from small_state_cases [OF assms(1)] consider
    "state c = 0" | "state c = 1" | "state c = 2" | "state c = 3" | "state c = 4" |
    "state c = 5" | "state c = 6" | "state c = 7" | "state c = 8" by blast
  then show ?thesis
  proof cases
    case 1 show ?thesis by (rule tick_state [OF in_builtin(1) loop_dispatch(1) [OF 1] assms(2)]) simp
  next
    case 2 show ?thesis by (rule tick_state [OF in_builtin(2) loop_dispatch(2) [OF 2] assms(2)]) simp
  next
    case 3 show ?thesis by (rule tick_state [OF in_builtin(3) loop_dispatch(3) [OF 3] assms(2)]) simp
  next
    case 4 show ?thesis by (rule tick_state [OF in_builtin(4) loop_dispatch(4) [OF 4] assms(2)]) simp
  next
    case 5 show ?thesis by (rule tick_state [OF in_builtin(5) loop_dispatch(5) [OF 5] assms(2)]) simp
  next
    case 6 show ?thesis by (rule tick_state [OF in_builtin(6) loop_dispatch(6) [OF 6] assms(2)]) simp
  next
    case 7 show ?thesis by (rule tick_state [OF in_builtin(7) loop_dispatch(7) [OF 7] assms(2)]) simp
  next
    case 8 show ?thesis by (rule tick_state [OF in_builtin(8) loop_dispatch(8) [OF 8] assms(2)]) simp
  next
    case 9
    from assms(2) have "state c' = 0"
      by (auto simp: loop_dispatch_pulse [OF 9])
    then show ?thesis by simp
  qed
qed

lemma ticks_state_range:
  assumes "ticks n c = Some c'" "unat (state c) \<le> 8"
  shows "unat (state c') \<le> 8"
  using assms
proof (induction n arbitrary: c)
  case 0
  then show ?case by simp
next
  case (Suc n)
  from Suc.prems(1) obtain c1 where c1: "loop c = Some c1" "ticks n c1 = Some c'"
    by (auto split: option.splits)
  from Suc.IH [OF c1(2) loop_state_range [OF Suc.prems(2) c1(1)]] show ?case .
qed

text \<open>
  Claim C10. After \<open>setup\<close> and any number of calls of \<open>loop\<close> that have returned,
  \<open>state\<close> is at most 8, so that the increment at the next entry to \<open>loop\<close> yields at
  most 9. \<open>setled\<close> and \<open>syncpulse\<close> do not write \<open>state\<close>, and the steps of a pattern
  function leave it as it is or, through \<open>waituntil\<close>, set it to 0.
\<close>

theorem state_stays_in_range:
  assumes "main_ticks n c = Some c'"
  shows "unat (state c') \<le> 8 \<and> unat (state c' + 1) \<le> 9 \<and>
    (\<forall>l r. state (setled l r c1) = state c1) \<and>
    (\<forall>S b c2. play S c1 = Some (b, c2) \<longrightarrow> state c2 = state c1 \<or> state c2 = 0) \<and>
    (\<forall>time c2. syncpulse time c1 = Some c2 \<longrightarrow> state c2 = state c1)"
proof -
  have "state (setup_badge c) = 0" by (simp add: setup_badge_def millis_def)
  then have "unat (state (setup_badge c)) \<le> 8" by simp
  from ticks_state_range [OF _ this] assms have le: "unat (state c') \<le> 8"
    by (simp add: main_ticks_def)
  from small_state_cases [OF le] have "unat (state c' + 1) \<le> 9"
    by (elim disjE) simp_all
  with le show ?thesis
    using play_state syncpulse_state by auto
qed

lemma setup_idle:
  "state (setup_badge idle_ctx) = 0" "no_rising_edge (setup_badge idle_ctx)"
  "clock_advances (setup_badge idle_ctx)"
proof -
  show "state (setup_badge idle_ctx) = 0" by (simp add: setup_badge_def millis_def)
  have "pin_history (setup_badge idle_ctx) j = 1" for j
    by (cases j) (simp_all add: pin_history_def poll_pin_def setup_badge_def millis_def idle_ctx_def)
  then show "no_rising_edge (setup_badge idle_ctx)"
    by (simp add: no_rising_edge_def setup_badge_def millis_def)
  show "clock_advances (setup_badge idle_ctx)"
    unfolding clock_advances_def using of_nat_clock
    by (simp add: setup_badge_def millis_def idle_ctx_def)
qed

theorem state_stays_in_range_witness:
  "\<exists>c'. main_ticks 8 idle_ctx = Some c' \<and> unat (state c') \<le> 8 \<and> unat (state c' + 1) \<le> 9"
proof -
  from eight_ticks_quiet [OF setup_idle, of 0] obtain c8 where
    "ticks 8 (setup_badge idle_ctx) = Some c8" by blast
  then have m: "main_ticks 8 idle_ctx = Some c8" by (simp add: main_ticks_def)
  from state_stays_in_range [OF m] m show ?thesis by blast
qed

end
